theory Spec2Isabelle
  imports Main "HOL-Library.Word"
begin

section \<open>Data model\<close>

text \<open>
  The ring buffer of \<^verbatim>\<open>ringbuf.h\<close>: a byte array and four \<^verbatim>\<open>uint16_t\<close> fields.
  Bytes are 8-bit words and the fields are 16-bit words, so that every store into a
  field truncates modulo \<open>2 ^ 16\<close> as in C.  C promotes \<^verbatim>\<open>uint16_t\<close> operands to a
  32-bit \<^verbatim>\<open>int\<close> before arithmetic and comparison; where this differs from 16-bit
  arithmetic (sums before \<^verbatim>\<open>%\<close>, comparisons of differences) the model computes on
  \<open>unat\<close>/\<open>uint\<close> values.  The storage \<^verbatim>\<open>arr\<close> is a list; the field \<^verbatim>\<open>size\<close> is called
  \<open>size_rb\<close>.  Pointers (\<^verbatim>\<open>obj\<close>, \<^verbatim>\<open>pdata\<close>) are taken to be non-null.
\<close>

type_synonym u8 = "8 word"
type_synonym u16 = "16 word"
type_synonym c_int = "32 word"

record ringbuf_t =
  arr :: "u8 list"
  size_rb :: u16
  used :: u16
  front :: u16
  rear :: u16

text \<open>\<^verbatim>\<open>ringbuf_init\<close>: fails on a zero size, otherwise all cursors are zero.\<close>

definition ringbuf_init :: "u8 list \<Rightarrow> u16 \<Rightarrow> ringbuf_t option" where
  "ringbuf_init a sz =
     (if sz \<le> 0 then None
      else Some \<lparr>arr = a, size_rb = sz, used = 0, front = 0, rear = 0\<rparr>)"

definition ringbuf_getUsedLength :: "ringbuf_t \<Rightarrow> u16" where
  "ringbuf_getUsedLength obj = used obj"

definition ringbuf_isEmpty :: "ringbuf_t \<Rightarrow> bool" where
  "ringbuf_isEmpty obj = (used obj = 0)"

definition ringbuf_isFull :: "ringbuf_t \<Rightarrow> bool" where
  "ringbuf_isFull obj = (used obj \<ge> size_rb obj)"

section \<open>Cursor resynchronisation\<close>

text \<open>
  \<^verbatim>\<open>ringbuf_updatePointer\<close>.  The three \<^verbatim>\<open>%\<close> come before any test of the size, so a
  call with \<open>size = 0\<close> that passes the first check divides by zero: that is the
  result \<open>None\<close>.  Truncating \<^verbatim>\<open>rear - front\<close> and \<^verbatim>\<open>size - front + rear\<close> to
  \<^verbatim>\<open>uint16_t\<close> is subtraction and addition of 16-bit words.
\<close>

definition ringbuf_updatePointer ::
  "ringbuf_t \<Rightarrow> u16 \<Rightarrow> u16 \<Rightarrow> u16 \<Rightarrow> (ringbuf_t \<times> bool) option" where
  "ringbuf_updatePointer obj front0 rear0 used0 =
     (if used0 > size_rb obj then Some (obj, False)
      else if size_rb obj = 0 then None
      else
        let f = front0 mod size_rb obj;
            r = rear0 mod size_rb obj;
            u = used0 mod size_rb obj;
            len = (if f \<le> r then r - f else size_rb obj - f + r)
        in if len \<noteq> u \<and> \<not> (len = 0 \<and> u = size_rb obj) then Some (obj, False)
           else Some (obj\<lparr>front := f, rear := r, used := u\<rparr>, True))"

section \<open>Writing\<close>

text \<open>
  \<^verbatim>\<open>ringbuf_write\<close> of \<^verbatim>\<open>ringbuf.c\<close>: the loop stores one byte at \<open>rear\<close>, advances
  \<open>rear\<close> and increments \<open>used\<close>, while \<open>len < length\<close> and \<open>len < space\<close>.  The
  argument \<open>pdata\<close> is the caller's array, \<open>n\<close> the parameter \<^verbatim>\<open>length\<close>.  The
  increment \<^verbatim>\<open>used++\<close> is a 16-bit addition; \<^verbatim>\<open>(rear + 1) % size\<close> is computed on the
  promoted values.
\<close>

lemma unat_succ_u16: "unat i < unat (n :: u16) \<Longrightarrow> unat (i + 1 :: u16) = Suc (unat i)"
  using unsigned_less [of n, where ?'a = nat] by (simp add: unat_word_ariths)

function write_loop :: "ringbuf_t \<Rightarrow> u8 list \<Rightarrow> u16 \<Rightarrow> u16 \<Rightarrow> u16 \<Rightarrow> ringbuf_t \<times> u16" where
  "write_loop obj pdata n space len =
     (if len < n \<and> len < space
      then write_loop
             (obj\<lparr>arr := (arr obj)[unat (rear obj) := pdata ! unat len],
                  rear := word_of_nat ((unat (rear obj) + 1) mod unat (size_rb obj)),
                  used := used obj + 1\<rparr>)
             pdata n space (len + 1)
      else (obj, len))"
  by pat_completeness auto
termination
  by (relation "measure (\<lambda>(obj, pdata, n, space, len). unat n - unat len)")
     (auto simp: word_less_nat_alt unat_succ_u16)

definition ringbuf_write :: "ringbuf_t \<Rightarrow> u8 list \<Rightarrow> u16 \<Rightarrow> ringbuf_t \<times> u16" where
  "ringbuf_write obj pdata n =
     (if n = 0 \<or> size_rb obj = 0 then (obj, 0)
      else write_loop obj pdata n (size_rb obj - used obj) 0)"

text \<open>
  \<^verbatim>\<open>ringbuf_writeForce\<close> of \<^verbatim>\<open>ringbuf.c\<close>: every byte is stored; after the increment
  of \<open>used\<close> the test \<^verbatim>\<open>used > size\<close> moves \<open>front\<close> one slot on and resets \<open>used\<close> to
  \<open>size\<close>.  The function returns \<^verbatim>\<open>length\<close>.
\<close>

function writeForce_loop :: "ringbuf_t \<Rightarrow> u8 list \<Rightarrow> u16 \<Rightarrow> u16 \<Rightarrow> ringbuf_t" where
  "writeForce_loop obj pdata n len =
     (if len < n
      then writeForce_loop
             (let obj1 = obj\<lparr>arr := (arr obj)[unat (rear obj) := pdata ! unat len],
                              rear := word_of_nat ((unat (rear obj) + 1) mod unat (size_rb obj)),
                              used := used obj + 1\<rparr>
              in if used obj1 > size_rb obj1
                 then obj1\<lparr>front := word_of_nat ((unat (front obj1) + 1) mod unat (size_rb obj1)),
                           used := size_rb obj1\<rparr>
                 else obj1)
             pdata n (len + 1)
      else obj)"
  by pat_completeness auto
termination
  by (relation "measure (\<lambda>(obj, pdata, n, len). unat n - unat len)")
     (auto simp: word_less_nat_alt unat_succ_u16)

definition ringbuf_writeForce :: "ringbuf_t \<Rightarrow> u8 list \<Rightarrow> u16 \<Rightarrow> ringbuf_t \<times> u16" where
  "ringbuf_writeForce obj pdata n =
     (if n = 0 \<or> size_rb obj = 0 then (obj, 0)
      else (writeForce_loop obj pdata n 0, n))"

text \<open>
  \<^verbatim>\<open>ringbuf_write\<close> of the second variant (\<^verbatim>\<open>part_000\<close>), with the flag \<^verbatim>\<open>force\<close>: a
  request longer than \<open>space\<close> is refused; otherwise the loop stores the bytes and
  the cursors are adjusted once, after the loop.  The comparison
  \<^verbatim>\<open>written > size - used\<close> is made on the promoted values.
\<close>

function write_p0_loop :: "ringbuf_t \<Rightarrow> u8 list \<Rightarrow> u16 \<Rightarrow> u16 \<Rightarrow> ringbuf_t" where
  "write_p0_loop obj pdata written i =
     (if i < written
      then write_p0_loop
             (obj\<lparr>arr := (arr obj)[unat (rear obj) := pdata ! unat i],
                  rear := word_of_nat ((unat (rear obj) + 1) mod unat (size_rb obj))\<rparr>)
             pdata written (i + 1)
      else obj)"
  by pat_completeness auto
termination
  by (relation "measure (\<lambda>(obj, pdata, written, i). unat written - unat i)")
     (auto simp: word_less_nat_alt unat_succ_u16)

definition ringbuf_write_p0 :: "ringbuf_t \<Rightarrow> u8 list \<Rightarrow> u16 \<Rightarrow> bool \<Rightarrow> ringbuf_t \<times> u16" where
  "ringbuf_write_p0 obj pdata n force =
     (if n = 0 \<or> size_rb obj = 0 then (obj, 0)
      else
        let space = (if force then size_rb obj else size_rb obj - used obj)
        in if n > space then (obj, 0)
           else
             let written = (if n < space then n else space);
                 obj1 = write_p0_loop obj pdata written 0
             in if force \<and> uint written > uint (size_rb obj1) - uint (used obj1)
                then
                  let cover_len = written - (size_rb obj1 - used obj1)
                  in (obj1\<lparr>front := word_of_nat
                               ((unat (front obj1) + unat cover_len) mod unat (size_rb obj1)),
                            used := size_rb obj1\<rparr>, written)
                else (obj1\<lparr>used := used obj1 + written\<rparr>, written))"

section \<open>Reading and removing\<close>

text \<open>
  The read loop is the same in both variants.  The output array \<^verbatim>\<open>pdata\<close> is modelled
  by the list of the bytes stored into it, in order: \<^verbatim>\<open>pdata[i]\<close> is the \<open>i\<close>-th
  element.  With \<open>used \<noteq> 0\<close> and \<open>size = 0\<close> the first \<^verbatim>\<open>% size\<close> divides by zero
  (\<open>None\<close>).
\<close>

function read_loop :: "ringbuf_t \<Rightarrow> u8 list \<Rightarrow> u16 \<Rightarrow> u16 \<Rightarrow> ringbuf_t \<times> u8 list" where
  "read_loop obj pdata readLength i =
     (if i < readLength
      then read_loop
             (obj\<lparr>front := word_of_nat ((unat (front obj) + 1) mod unat (size_rb obj))\<rparr>)
             (pdata @ [arr obj ! unat (front obj)]) readLength (i + 1)
      else (obj, pdata))"
  by pat_completeness auto
termination
  by (relation "measure (\<lambda>(obj, pdata, readLength, i). unat readLength - unat i)")
     (auto simp: word_less_nat_alt unat_succ_u16)

definition ringbuf_read :: "ringbuf_t \<Rightarrow> u16 \<Rightarrow> (ringbuf_t \<times> u8 list \<times> u16) option" where
  "ringbuf_read obj n =
     (if n = 0 \<or> used obj = 0 then Some (obj, [], 0)
      else if size_rb obj = 0 then None
      else
        let readLength = (if n \<le> used obj then n else used obj);
            (obj1, pdata) = read_loop obj [] readLength 0
        in Some (obj1\<lparr>used := used obj1 - readLength\<rparr>, pdata, readLength))"

definition ringbuf_read_p0 ::
  "ringbuf_t \<Rightarrow> u16 \<Rightarrow> bool \<Rightarrow> (ringbuf_t \<times> u8 list \<times> u16) option" where
  "ringbuf_read_p0 obj n strictRead =
     (if n = 0 \<or> used obj = 0 then Some (obj, [], 0)
      else if strictRead \<and> n > used obj then Some (obj, [], 0)
      else if size_rb obj = 0 then None
      else
        let readLength = (if n > used obj then used obj else n);
            (obj1, pdata) = read_loop obj [] readLength 0
        in Some (obj1\<lparr>used := used obj1 - readLength\<rparr>, pdata, readLength))"

text \<open>
  \<^verbatim>\<open>ringbuf_remove\<close> takes a C \<^verbatim>\<open>int\<close>, a 32-bit word read as two's complement.
  \<^verbatim>\<open>abs\<close> of the least \<^verbatim>\<open>int\<close> is undefined, and so is \<^verbatim>\<open>% size\<close> with \<open>size = 0\<close>:
  both are \<open>None\<close>.  C's \<^verbatim>\<open>%\<close> truncates towards zero (\<open>c_rem\<close>).
\<close>

definition c_rem :: "int \<Rightarrow> int \<Rightarrow> int" where
  "c_rem a b = sgn a * (\<bar>a\<bar> mod \<bar>b\<bar>)"

definition ringbuf_remove :: "ringbuf_t \<Rightarrow> c_int \<Rightarrow> (ringbuf_t \<times> u16) option" where
  "ringbuf_remove obj n =
     (if n = 0 \<or> used obj = 0 then Some (obj, 0)
      else if sint n = - (2 ^ 31) then None
      else if \<bar>sint n\<bar> \<ge> uint (used obj)
      then Some (obj\<lparr>front := 0, rear := 0, used := 0\<rparr>, used obj)
      else if size_rb obj = 0 then None
      else if sint n > 0
      then Some (obj\<lparr>front := word_of_int
                          (c_rem (uint (front obj) + sint n) (uint (size_rb obj))),
                      used := word_of_int (uint (used obj) - sint n)\<rparr>,
                 word_of_int (sint n))
      else Some (obj\<lparr>rear := word_of_int
                          (c_rem (uint (rear obj) + uint (size_rb obj) + sint n)
                             (uint (size_rb obj))),
                      used := word_of_int (uint (used obj) + sint n)\<rparr>,
                 word_of_int (- sint n)))"

section \<open>Random access\<close>

text \<open>
  \<^verbatim>\<open>ringbuf_modify\<close>, \<^verbatim>\<open>ringbuf_peek\<close> and \<^verbatim>\<open>ringbuf_memset\<close> (the variants differ in
  the order of the parameters only).  The test \<^verbatim>\<open>length > used - index\<close> is made on the
  promoted values.  \<^verbatim>\<open>ringbuf_peek\<close> returns the bytes it stores into \<^verbatim>\<open>pdata\<close>.
\<close>

function modify_loop :: "ringbuf_t \<Rightarrow> u8 list \<Rightarrow> u16 \<Rightarrow> u16 \<Rightarrow> u16 \<Rightarrow> ringbuf_t" where
  "modify_loop obj pdata n start_pos i =
     (if i < n
      then modify_loop
             (obj\<lparr>arr := (arr obj)[(unat start_pos + unat i) mod unat (size_rb obj)
                                     := pdata ! unat i]\<rparr>)
             pdata n start_pos (i + 1)
      else obj)"
  by pat_completeness auto
termination
  by (relation "measure (\<lambda>(obj, pdata, n, start_pos, i). unat n - unat i)")
     (auto simp: word_less_nat_alt unat_succ_u16)

definition ringbuf_modify :: "ringbuf_t \<Rightarrow> u16 \<Rightarrow> u16 \<Rightarrow> u8 list \<Rightarrow> ringbuf_t \<times> bool" where
  "ringbuf_modify obj index n pdata =
     (if index \<ge> used obj \<or> uint n > uint (used obj) - uint index \<or> size_rb obj = 0
      then (obj, False)
      else (modify_loop obj pdata n
              (word_of_nat ((unat (front obj) + unat index) mod unat (size_rb obj))) 0,
            True))"

function peek_loop :: "ringbuf_t \<Rightarrow> u8 list \<Rightarrow> u16 \<Rightarrow> u16 \<Rightarrow> u16 \<Rightarrow> u8 list" where
  "peek_loop obj pdata n start_pos i =
     (if i < n
      then peek_loop obj
             (pdata @ [arr obj ! ((unat start_pos + unat i) mod unat (size_rb obj))])
             n start_pos (i + 1)
      else pdata)"
  by pat_completeness auto
termination
  by (relation "measure (\<lambda>(obj, pdata, n, start_pos, i). unat n - unat i)")
     (auto simp: word_less_nat_alt unat_succ_u16)

definition ringbuf_peek :: "ringbuf_t \<Rightarrow> u16 \<Rightarrow> u16 \<Rightarrow> u8 list \<times> bool" where
  "ringbuf_peek obj index n =
     (if index \<ge> used obj \<or> uint n > uint (used obj) - uint index \<or> size_rb obj = 0
      then ([], False)
      else (peek_loop obj [] n
              (word_of_nat ((unat (front obj) + unat index) mod unat (size_rb obj))) 0,
            True))"

function memset_loop :: "ringbuf_t \<Rightarrow> u8 \<Rightarrow> u16 \<Rightarrow> u16 \<Rightarrow> u16 \<Rightarrow> ringbuf_t" where
  "memset_loop obj v n start i =
     (if i < n
      then memset_loop (obj\<lparr>arr := (arr obj)[unat start := v]\<rparr>) v n
             (word_of_nat ((unat start + 1) mod unat (size_rb obj))) (i + 1)
      else obj)"
  by pat_completeness auto
termination
  by (relation "measure (\<lambda>(obj, v, n, start, i). unat n - unat i)")
     (auto simp: word_less_nat_alt unat_succ_u16)

definition ringbuf_memset :: "ringbuf_t \<Rightarrow> u16 \<Rightarrow> u8 \<Rightarrow> u16 \<Rightarrow> ringbuf_t \<times> u16" where
  "ringbuf_memset obj index v n =
     (if n = 0 \<or> index \<ge> size_rb obj then (obj, 0)
      else
        let start = word_of_nat ((unat (front obj) + unat index) mod unat (size_rb obj));
            n1 = (if n \<le> size_rb obj then n else size_rb obj)
        in (memset_loop obj v n1 start 0, n1))"

section \<open>String scan\<close>

text \<open>
  \<^verbatim>\<open>ringbuf_strchr\<close> (the same in both variants) returns an \<^verbatim>\<open>int\<close>: \<open>- 1\<close> or
  \<^verbatim>\<open>(index + count) % used\<close>.  The loop runs while \<open>count < used\<close>.
\<close>

function strchr_loop :: "ringbuf_t \<Rightarrow> u16 \<Rightarrow> u8 \<Rightarrow> u16 \<Rightarrow> u16 \<Rightarrow> int" where
  "strchr_loop obj index ch start count =
     (if count < used obj
      then if arr obj ! unat start = ch
           then int ((unat index + unat count) mod unat (used obj))
           else strchr_loop obj index ch
                  (word_of_nat ((unat start + 1) mod unat (size_rb obj))) (count + 1)
      else - 1)"
  by pat_completeness auto
termination
  by (relation "measure (\<lambda>(obj, index, ch, start, count). unat (used obj) - unat count)")
     (auto simp: word_less_nat_alt unat_succ_u16)

definition ringbuf_strchr :: "ringbuf_t \<Rightarrow> u16 \<Rightarrow> u8 \<Rightarrow> int option" where
  "ringbuf_strchr obj index ch =
     (if index \<ge> used obj then Some (- 1)
      else if size_rb obj = 0 then None
      else Some (strchr_loop obj index ch
                   (word_of_nat ((unat (front obj) + unat index) mod unat (size_rb obj))) 0))"

text \<open>
  \<^verbatim>\<open>ringbuf_strlen\<close> counts while \<open>count < used\<close> and the byte is not zero.
  (\<^verbatim>\<open>ringbuf_strstr\<close> is not modelled: no property below is about it.)
\<close>

function strlen_loop :: "ringbuf_t \<Rightarrow> u16 \<Rightarrow> u16 \<Rightarrow> u16" where
  "strlen_loop obj start count =
     (if count < used obj \<and> arr obj ! unat start \<noteq> 0
      then strlen_loop obj (word_of_nat ((unat start + 1) mod unat (size_rb obj))) (count + 1)
      else count)"
  by pat_completeness auto
termination
  by (relation "measure (\<lambda>(obj, start, count). unat (used obj) - unat count)")
     (auto simp: word_less_nat_alt unat_succ_u16)

definition ringbuf_strlen :: "ringbuf_t \<Rightarrow> u16 \<Rightarrow> u16 option" where
  "ringbuf_strlen obj index =
     (if index \<ge> used obj then Some 0
      else if size_rb obj = 0 then None
      else Some (strlen_loop obj
                   (word_of_nat ((unat (front obj) + unat index) mod unat (size_rb obj))) 0))"

section \<open>Invariant and logical contents\<close>

text \<open>
  A buffer is well formed when the storage has \<open>size\<close> slots, \<open>size\<close> is positive and
  both cursors are slots.  The ring invariant is that of the specification.  The
  logical contents are the \<open>used\<close> bytes from \<open>front\<close> on, wrapping through storage.
\<close>

definition well_formed :: "ringbuf_t \<Rightarrow> bool" where
  "well_formed obj \<longleftrightarrow>
     size_rb obj \<noteq> 0 \<and> length (arr obj) = unat (size_rb obj)
     \<and> front obj < size_rb obj \<and> rear obj < size_rb obj"

definition ring_inv :: "ringbuf_t \<Rightarrow> bool" where
  "ring_inv obj \<longleftrightarrow>
     unat (rear obj) = (unat (front obj) + unat (used obj)) mod unat (size_rb obj)
     \<and> used obj \<le> size_rb obj"

definition contents :: "ringbuf_t \<Rightarrow> u8 list" where
  "contents obj =
     map (\<lambda>i. arr obj ! ((unat (front obj) + i) mod unat (size_rb obj)))
       [0 ..< unat (used obj)]"

section \<open>Sequences of operations\<close>

text \<open>
  The operations that return a state, of both variants, and their effect on the
  buffer; \<open>None\<close> where the code divides by zero or takes \<^verbatim>\<open>abs\<close> of the least
  \<^verbatim>\<open>int\<close>.  An operation is admissible at capacity \<open>sz\<close> when the caller's array
  holds the bytes requested, the \<^verbatim>\<open>int\<close> is not the least one and, for
  \<^verbatim>\<open>ringbuf_writeForce\<close>, the capacity is not \<open>65535\<close>.  \<open>first_index\<close> is the position
  of the first occurrence of a byte in a list, or \<open>- 1\<close>.
\<close>

datatype engine_op =
    Write "u8 list" u16
  | WriteForce "u8 list" u16
  | Read u16
  | Write_p0 "u8 list" u16 bool
  | Read_p0 u16 bool
  | Remove c_int
  | Modify u16 u16 "u8 list"
  | Memset u16 u8 u16
  | UpdatePointer u16 u16 u16

fun apply_op :: "ringbuf_t \<Rightarrow> engine_op \<Rightarrow> ringbuf_t option" where
  "apply_op obj (Write pdata n) = Some (fst (ringbuf_write obj pdata n))"
| "apply_op obj (WriteForce pdata n) = Some (fst (ringbuf_writeForce obj pdata n))"
| "apply_op obj (Read n) = map_option fst (ringbuf_read obj n)"
| "apply_op obj (Write_p0 pdata n force) = Some (fst (ringbuf_write_p0 obj pdata n force))"
| "apply_op obj (Read_p0 n strictRead) = map_option fst (ringbuf_read_p0 obj n strictRead)"
| "apply_op obj (Remove n) = map_option fst (ringbuf_remove obj n)"
| "apply_op obj (Modify index n pdata) = Some (fst (ringbuf_modify obj index n pdata))"
| "apply_op obj (Memset index v n) = Some (fst (ringbuf_memset obj index v n))"
| "apply_op obj (UpdatePointer f r u) = map_option fst (ringbuf_updatePointer obj f r u)"

fun run :: "ringbuf_t \<Rightarrow> engine_op list \<Rightarrow> ringbuf_t option" where
  "run obj [] = Some obj"
| "run obj (x # xs) = (case apply_op obj x of None \<Rightarrow> None | Some obj' \<Rightarrow> run obj' xs)"

fun admissible :: "u16 \<Rightarrow> engine_op \<Rightarrow> bool" where
  "admissible sz (Write pdata n) = (unat n \<le> length pdata)"
| "admissible sz (WriteForce pdata n) = (unat n \<le> length pdata \<and> sz \<noteq> 65535)"
| "admissible sz (Write_p0 pdata n force) = (unat n \<le> length pdata)"
| "admissible sz (Remove n) = (sint n \<noteq> - (2 ^ 31))"
| "admissible sz (Modify index n pdata) = (unat n \<le> length pdata)"
| "admissible sz x = True"

definition first_index :: "u8 list \<Rightarrow> u8 \<Rightarrow> int" where
  "first_index xs x = (if x \<in> set xs then int (length (takeWhile (\<lambda>y. y \<noteq> x) xs)) else - 1)"

section \<open>Auxiliary notions for the proofs\<close>

text \<open>
  The three write loops store the same bytes at the same slots: \<open>put_bytes\<close> is that
  effect on the storage, \<open>ring\<close> the window of \<open>u\<close> slots from \<open>f\<close> on, and \<open>lastn\<close>
  the last \<open>k\<close> elements of a list.  \<open>force_step\<close> is the body of the loop of
  \<^verbatim>\<open>ringbuf_writeForce\<close>, and \<open>forced\<close> the state after a write of \<open>bs\<close> that evicts
  the oldest bytes once the buffer is full.
\<close>

fun put_bytes :: "'a list \<Rightarrow> nat \<Rightarrow> nat \<Rightarrow> 'a list \<Rightarrow> 'a list" where
  "put_bytes a r sz [] = a"
| "put_bytes a r sz (b # bs) = put_bytes (a[r := b]) (Suc r mod sz) sz bs"

definition ring :: "'a list \<Rightarrow> nat \<Rightarrow> nat \<Rightarrow> nat \<Rightarrow> 'a list" where
  "ring a sz f u = map (\<lambda>i. a ! ((f + i) mod sz)) [0 ..< u]"

definition lastn :: "nat \<Rightarrow> 'a list \<Rightarrow> 'a list" where
  "lastn k xs = drop (length xs - k) xs"

definition force_step :: "ringbuf_t \<Rightarrow> u8 \<Rightarrow> ringbuf_t" where
  "force_step obj b =
     (let obj1 = obj\<lparr>arr := (arr obj)[unat (rear obj) := b],
                      rear := word_of_nat ((unat (rear obj) + 1) mod unat (size_rb obj)),
                      used := used obj + 1\<rparr>
      in if used obj1 > size_rb obj1
         then obj1\<lparr>front := word_of_nat ((unat (front obj1) + 1) mod unat (size_rb obj1)),
                   used := size_rb obj1\<rparr>
         else obj1)"

definition forced :: "ringbuf_t \<Rightarrow> u8 list \<Rightarrow> ringbuf_t" where
  "forced obj bs =
     obj\<lparr>arr := put_bytes (arr obj) (unat (rear obj)) (unat (size_rb obj)) bs,
         rear := word_of_nat ((unat (rear obj) + length bs) mod unat (size_rb obj)),
         used := word_of_nat (min (unat (used obj) + length bs) (unat (size_rb obj))),
         front := word_of_nat ((unat (front obj) + (unat (used obj) + length bs - unat (size_rb obj)))
                     mod unat (size_rb obj))\<rparr>"

section \<open>Loops in closed form\<close>

declare write_loop.simps [simp del] writeForce_loop.simps [simp del] write_p0_loop.simps [simp del]
  read_loop.simps [simp del] strchr_loop.simps [simp del]
declare modify_loop.simps [simp del] peek_loop.simps [simp del] memset_loop.simps [simp del]
  strlen_loop.simps [simp del]

lemma unat_of_nat_mod_u16:
  "sz \<noteq> 0 \<Longrightarrow> unat (word_of_nat (x mod unat (sz :: u16)) :: u16) = x mod unat sz"
  by (rule le_unat_uoi [of _ sz]) (simp add: unat_gt_0 less_imp_le)

lemma u16_succ_less: "(i :: u16) < k \<Longrightarrow> unat (i + 1) = Suc (unat i)"
  by (simp add: word_less_nat_alt unat_succ_u16)

lemma u16_succ_le: "(i :: u16) < k \<Longrightarrow> i + 1 \<le> k"
  by (simp add: word_less_nat_alt word_le_nat_alt unat_succ_u16)

lemma ring_slots_Cons:
  "0 < sz \<Longrightarrow> f < sz \<Longrightarrow>
   map (\<lambda>j. a ! ((f + j) mod sz)) [0 ..< Suc m]
     = a ! f # map (\<lambda>j. a ! ((Suc f mod sz + j) mod sz)) [0 ..< m]"
proof -
  assume "0 < sz" "f < sz"
  have "[0 ..< Suc m] = 0 # map Suc [0 ..< m]"
    by (simp add: upt_conv_Cons map_Suc_upt del: upt_Suc)
  then show ?thesis
    using \<open>f < sz\<close> by (simp add: mod_add_left_eq o_def del: upt_Suc)
qed

lemma read_loop_closed:
  "size_rb obj \<noteq> 0 \<Longrightarrow> front obj < size_rb obj \<Longrightarrow> i \<le> k \<Longrightarrow>
   read_loop obj pdata k i =
     (obj\<lparr>front := word_of_nat ((unat (front obj) + (unat k - unat i)) mod unat (size_rb obj))\<rparr>,
      pdata @ map (\<lambda>j. arr obj ! ((unat (front obj) + j) mod unat (size_rb obj)))
                [0 ..< unat k - unat i])"
proof (induction obj pdata k i rule: read_loop.induct)
  case (1 obj pdata k i)
  show ?case
  proof (cases "i < k")
    case False
    with "1.prems" have "i = k" by simp
    with "1.prems" show ?thesis
      by (simp add: read_loop.simps [of obj pdata k k] word_less_nat_alt)
  next
    case True
    let ?sz = "unat (size_rb obj)"
    let ?obj1 = "obj\<lparr>front := word_of_nat ((unat (front obj) + 1) mod ?sz)\<rparr>"
    have sz: "0 < ?sz" using "1.prems" by (simp add: unat_gt_0)
    have f: "unat (front obj) < ?sz" using "1.prems" by (simp add: word_less_nat_alt)
    have f1: "unat (front ?obj1) = (unat (front obj) + 1) mod ?sz"
      using "1.prems" by (simp add: unat_of_nat_mod_u16)
    have lt1: "front ?obj1 < size_rb ?obj1"
      using sz f1 by (simp add: word_less_nat_alt)
    have d: "unat k - unat i = Suc (unat k - unat (i + 1))"
      using True by (simp add: u16_succ_less word_less_nat_alt)
    have IH: "read_loop ?obj1 (pdata @ [arr obj ! unat (front obj)]) k (i + 1) =
      (?obj1\<lparr>front := word_of_nat ((unat (front ?obj1) + (unat k - unat (i + 1))) mod ?sz)\<rparr>,
       (pdata @ [arr obj ! unat (front obj)]) @
         map (\<lambda>j. arr ?obj1 ! ((unat (front ?obj1) + j) mod ?sz)) [0 ..< unat k - unat (i + 1)])"
      using "1.IH" [OF True] "1.prems" lt1 u16_succ_le [OF True] by simp
    have m: "(Suc (unat (front obj)) mod ?sz + (unat k - unat (i + 1))) mod ?sz
             = (unat (front obj) + (unat k - unat i)) mod ?sz"
      by (simp add: d mod_add_left_eq)
    have "read_loop obj pdata k i
            = read_loop ?obj1 (pdata @ [arr obj ! unat (front obj)]) k (i + 1)"
      using True by (subst read_loop.simps) simp
    also note IH
    also have "(?obj1\<lparr>front := word_of_nat ((unat (front ?obj1) + (unat k - unat (i + 1))) mod ?sz)\<rparr>,
       (pdata @ [arr obj ! unat (front obj)]) @
         map (\<lambda>j. arr ?obj1 ! ((unat (front ?obj1) + j) mod ?sz)) [0 ..< unat k - unat (i + 1)])
      = (obj\<lparr>front := word_of_nat ((unat (front obj) + (unat k - unat i)) mod ?sz)\<rparr>,
         pdata @ map (\<lambda>j. arr obj ! ((unat (front obj) + j) mod ?sz)) [0 ..< unat k - unat i])"
      unfolding f1 using m
      by (simp add: ring_slots_Cons [OF sz f, of _ "unat k - unat (i + 1)"] d del: upt_Suc)
    finally show ?thesis .
  qed
qed

lemma contents_Nil: "used obj = 0 \<Longrightarrow> contents obj = []"
  by (simp add: contents_def)

lemma write_p0_loop_used_update:
  "write_p0_loop (obj\<lparr>used := u\<rparr>) pdata w i = (write_p0_loop obj pdata w i)\<lparr>used := u\<rparr>"
proof (induction obj pdata w i arbitrary: u rule: write_p0_loop.induct)
  case (1 obj pdata w i)
  show ?case
  proof (cases "i < w")
    case True
    let ?obj1 = "obj\<lparr>arr := (arr obj)[unat (rear obj) := pdata ! unat i],
                     rear := word_of_nat ((unat (rear obj) + 1) mod unat (size_rb obj))\<rparr>"
    have "write_p0_loop (obj\<lparr>used := u\<rparr>) pdata w i
            = write_p0_loop (?obj1\<lparr>used := u\<rparr>) pdata w (i + 1)"
      using True by (subst write_p0_loop.simps) (cases obj, simp)
    also have "\<dots> = (write_p0_loop ?obj1 pdata w (i + 1))\<lparr>used := u\<rparr>"
      by (rule "1.IH" [OF True])
    also have "write_p0_loop ?obj1 pdata w (i + 1) = write_p0_loop obj pdata w i"
      using True by (subst (2) write_p0_loop.simps) simp
    finally show ?thesis .
  next
    case False
    then show ?thesis
      by (subst write_p0_loop.simps, subst (2) write_p0_loop.simps) simp
  qed
qed

lemma write_p0_loop_used [simp]: "used (write_p0_loop obj pdata w i) = used obj"
proof (induction obj pdata w i rule: write_p0_loop.induct)
  case (1 obj pdata w i)
  show ?case
  proof (cases "i < w")
    case True
    then show ?thesis
      using "1.IH" [OF True] by (subst write_p0_loop.simps) simp
  next
    case False
    then show ?thesis by (subst write_p0_loop.simps) simp
  qed
qed

lemma write_loop_eq_p0_loop:
  "i \<le> n \<Longrightarrow> n \<le> space \<Longrightarrow>
   write_loop obj pdata n space i =
     ((write_p0_loop obj pdata n i)\<lparr>used := used obj + (n - i)\<rparr>, n)"
proof (induction obj pdata n space i rule: write_loop.induct)
  case (1 obj pdata n space i)
  show ?case
  proof (cases "i < n")
    case False
    with "1.prems" have "i = n" by simp
    then show ?thesis
      by (subst write_loop.simps, subst write_p0_loop.simps) simp
  next
    case True
    with "1.prems" have c: "i < n \<and> i < space" by simp
    have le: "i + 1 \<le> n" using True by (rule u16_succ_le)
    show ?thesis
      using True c "1.IH" [OF c le "1.prems"(2)]
      by (subst write_loop.simps, subst write_p0_loop.simps)
         (simp add: write_p0_loop_used_update)
  qed
qed

lemma write_loop_min:
  "write_loop obj pdata n space i = write_loop obj pdata (min n space) (min n space) i"
proof (induction obj pdata n space i rule: write_loop.induct)
  case (1 obj pdata n space i)
  show ?case
  proof (cases "i < n \<and> i < space")
    case True
    then show ?thesis
      using "1.IH" [OF True]
      by (subst write_loop.simps, subst (2) write_loop.simps) simp
  next
    case False
    then show ?thesis
      by (subst write_loop.simps, subst (2) write_loop.simps) auto
  qed
qed

lemma write_eq_write_p0:
  assumes "n \<le> size_rb obj - used obj"
  shows "ringbuf_write obj pdata n = ringbuf_write_p0 obj pdata n False"
proof (cases "n = 0 \<or> size_rb obj = 0")
  case True
  then show ?thesis by (auto simp: ringbuf_write_def ringbuf_write_p0_def)
next
  case False
  have "write_loop obj pdata n (size_rb obj - used obj) 0
          = ((write_p0_loop obj pdata n 0)\<lparr>used := used obj + n\<rparr>, n)"
    using write_loop_eq_p0_loop [of 0 n "size_rb obj - used obj" obj pdata] assms by simp
  with False assms show ?thesis
    by (auto simp: ringbuf_write_def ringbuf_write_p0_def Let_def)
qed

lemma write_truncates:
  assumes "used obj \<le> size_rb obj" and "n > size_rb obj - used obj"
  shows "ringbuf_write obj pdata n = ringbuf_write obj pdata (size_rb obj - used obj)"
    and "snd (ringbuf_write obj pdata n) = size_rb obj - used obj"
proof -
  let ?sp = "size_rb obj - used obj"
  have m: "min n ?sp = ?sp" using assms(2) by simp
  have n0: "n \<noteq> 0" using assms(2) by auto
  have sp0: "size_rb obj = 0 \<Longrightarrow> ?sp = 0" using assms(1) by simp
  have l: "write_loop obj pdata n ?sp 0 = write_loop obj pdata ?sp ?sp 0"
    using write_loop_min [of obj pdata n ?sp 0] by (simp add: m)
  have z: "write_loop obj pdata 0 0 0 = (obj, 0)"
    by (subst write_loop.simps) simp
  have z': "write_loop obj pdata n 0 0 = (obj, 0)"
    by (subst write_loop.simps) simp
  show "ringbuf_write obj pdata n = ringbuf_write obj pdata ?sp"
    using n0 sp0 by (auto simp: ringbuf_write_def l z z')
  have "write_loop obj pdata ?sp ?sp 0 = ((write_p0_loop obj pdata ?sp 0)\<lparr>used := used obj + ?sp\<rparr>, ?sp)"
    using write_loop_eq_p0_loop [of 0 ?sp ?sp obj pdata] by simp
  then show "snd (ringbuf_write obj pdata n) = ?sp"
    using n0 sp0 by (auto simp: ringbuf_write_def l)
qed

lemma length_ring [simp]: "length (ring a sz f u) = u"
  by (simp add: ring_def)

lemma length_put_bytes [simp]: "length (put_bytes a r sz bs) = length a"
  by (induction bs arbitrary: a r) simp_all

lemma lastn_lastn_append: "lastn k (lastn k xs @ ys) = lastn k (xs @ ys)"
proof (cases "length xs \<le> k")
  case True
  then show ?thesis by (simp add: lastn_def)
next
  case False
  then have "length xs + length ys - (length xs - k + k) + (length xs - k)
               = length xs + length ys - k"
    by simp
  with False show ?thesis by (simp add: lastn_def)
qed

lemma ring_slot_distinct:
  assumes "i < j" "j - i < sz" "(f + i) mod sz = (f + j) mod (sz :: nat)"
  shows False
proof -
  have "f + i \<le> f + j" using assms(1) by simp
  then have "sz dvd (f + j) - (f + i)"
    using assms(3) [symmetric] by (simp add: mod_eq_dvd_iff_nat)
  then have "sz dvd j - i" by simp
  moreover have "0 < j - i" using assms(1) by simp
  ultimately show False using assms(2) by (simp add: nat_dvd_not_less)
qed

lemma ring_step_free:
  assumes "0 < sz" "f < sz" "u < sz" "length a = sz"
  shows "ring (a[(f + u) mod sz := b]) sz f (Suc u) = ring a sz f u @ [b]"
proof -
  have old: "a[(f + u) mod sz := b] ! ((f + i) mod sz) = a ! ((f + i) mod sz)" if "i < u" for i
  proof -
    have "u - i < sz" using assms(3) by simp
    then have "(f + i) mod sz \<noteq> (f + u) mod sz"
      using ring_slot_distinct [of i u sz f] that by blast
    then show ?thesis by simp
  qed
  have new: "a[(f + u) mod sz := b] ! ((f + u) mod sz) = b"
    using assms by simp
  show ?thesis
    using old by (simp add: ring_def new)
qed

lemma ring_step_full:
  assumes "0 < sz" "f < sz" "length a = sz"
  shows "ring (a[f := b]) sz (Suc f mod sz) sz = tl (ring a sz f sz) @ [b]"
proof (rule nth_equalityI)
  show "length (ring (a[f := b]) sz (Suc f mod sz) sz) = length (tl (ring a sz f sz) @ [b])"
    using assms by simp
next
  fix i assume "i < length (ring (a[f := b]) sz (Suc f mod sz) sz)"
  then have i: "i < sz" by simp
  have pos: "(Suc f mod sz + i) mod sz = (f + Suc i) mod sz"
    by (simp add: mod_add_left_eq)
  show "ring (a[f := b]) sz (Suc f mod sz) sz ! i = (tl (ring a sz f sz) @ [b]) ! i"
  proof (cases "Suc i < sz")
    case True
    have "Suc i - 0 < sz" using True by simp
    then have "(f + 0) mod sz \<noteq> (f + Suc i) mod sz"
      using ring_slot_distinct [of 0 "Suc i" sz f] by blast
    then have "f \<noteq> (f + Suc i) mod sz" using assms(2) by simp
    then have "a[f := b] ! ((f + Suc i) mod sz) = a ! ((f + Suc i) mod sz)" by simp
    moreover have "i < sz - Suc 0" using True by simp
    ultimately show ?thesis
      using True i by (simp add: ring_def pos nth_append nth_tl)
  next
    case False
    with i have e: "Suc i = sz" by simp
    then have "(f + Suc i) mod sz = f" using assms(2) by simp
    moreover have "\<not> i < sz - Suc 0" and "i - (sz - Suc 0) = 0" using e by auto
    ultimately show ?thesis
      using i assms by (simp add: ring_def pos nth_append)
  qed
qed

lemma ring_step:
  assumes "0 < sz" "f < sz" "u \<le> sz" "length a = sz"
  shows "ring (a[(f + u) mod sz := b]) sz ((f + (Suc u - sz)) mod sz) (min (Suc u) sz)
           = lastn sz (ring a sz f u @ [b])"
proof (cases "u < sz")
  case True
  then show ?thesis
    using ring_step_free [OF assms(1,2) True assms(4), of b] assms(2)
    by (simp add: lastn_def)
next
  case False
  with assms(3) have u: "u = sz" by simp
  have "ring a sz f sz \<noteq> []" using assms(1) by (simp add: ring_def)
  then have "drop (Suc 0) (ring a sz f sz) = tl (ring a sz f sz)" by (simp add: drop_Suc)
  then show ?thesis
    using ring_step_full [OF assms(1,2,4), of b] assms(2)
    by (simp add: lastn_def u)
qed

lemma ring_put_bytes:
  assumes "0 < sz" "f < sz" "u \<le> sz" "length a = sz"
  shows "ring (put_bytes a ((f + u) mod sz) sz bs) sz
           ((f + (u + length bs - sz)) mod sz) (min (u + length bs) sz)
         = lastn sz (ring a sz f u @ bs)"
  using assms
proof (induction bs arbitrary: a f u)
  case Nil
  then show ?case by (simp add: lastn_def)
next
  case (Cons b bs)
  let ?a1 = "a[(f + u) mod sz := b]"
  let ?f1 = "(f + (Suc u - sz)) mod sz"
  let ?u1 = "min (Suc u) sz"
  have f1: "?f1 < sz" using Cons.prems(1) by simp
  have u1: "?u1 \<le> sz" by simp
  have a1: "length ?a1 = sz" using Cons.prems(4) by simp
  have r1: "(?f1 + ?u1) mod sz = Suc ((f + u) mod sz) mod sz"
  proof (cases "u < sz")
    case True
    then show ?thesis using Cons.prems(2) by (simp add: mod_Suc_eq)
  next
    case False
    with Cons.prems(3) have "u = sz" by simp
    then show ?thesis using Cons.prems(2) by (simp add: mod_Suc_eq)
  qed
  have c1: "(?f1 + (?u1 + length bs - sz)) mod sz = (f + (u + length (b # bs) - sz)) mod sz"
  proof -
    have "(Suc u - sz) + (?u1 + length bs - sz) = u + length (b # bs) - sz"
      using Cons.prems(3) by (cases "u < sz") auto
    then show ?thesis by (metis mod_add_left_eq add.assoc)
  qed
  have c2: "min (?u1 + length bs) sz = min (u + length (b # bs)) sz"
    by auto
  have "ring (put_bytes a ((f + u) mod sz) sz (b # bs)) sz
           ((f + (u + length (b # bs) - sz)) mod sz) (min (u + length (b # bs)) sz)
        = ring (put_bytes ?a1 ((?f1 + ?u1) mod sz) sz bs) sz
           ((?f1 + (?u1 + length bs - sz)) mod sz) (min (?u1 + length bs) sz)"
    unfolding r1 c1 c2 by simp
  also have "\<dots> = lastn sz (ring ?a1 sz ?f1 ?u1 @ bs)"
    by (rule Cons.IH [OF Cons.prems(1) f1 u1 a1])
  also have "\<dots> = lastn sz (lastn sz (ring a sz f u @ [b]) @ bs)"
    by (simp only: ring_step [OF Cons.prems])
  also have "\<dots> = lastn sz (ring a sz f u @ b # bs)"
    by (simp add: lastn_lastn_append)
  finally show ?case .
qed

lemma contents_ring:
  "contents obj = ring (arr obj) (unat (size_rb obj)) (unat (front obj)) (unat (used obj))"
  by (simp add: contents_def ring_def)

lemma drop_take_step:
  "i < n \<Longrightarrow> n \<le> length pdata \<Longrightarrow>
   drop i (take n pdata) = pdata ! i # drop (Suc i) (take n pdata)"
  using Cons_nth_drop_Suc [of i "take n pdata"] by simp

lemma write_p0_loop_closed:
  "size_rb obj \<noteq> 0 \<Longrightarrow> rear obj < size_rb obj \<Longrightarrow> i \<le> n \<Longrightarrow> unat n \<le> length pdata \<Longrightarrow>
   write_p0_loop obj pdata n i =
     obj\<lparr>arr := put_bytes (arr obj) (unat (rear obj)) (unat (size_rb obj))
                   (drop (unat i) (take (unat n) pdata)),
         rear := word_of_nat ((unat (rear obj) + (unat n - unat i)) mod unat (size_rb obj))\<rparr>"
proof (induction obj pdata n i rule: write_p0_loop.induct)
  case (1 obj pdata n i)
  let ?sz = "unat (size_rb obj)"
  let ?r = "unat (rear obj)"
  have sz: "0 < ?sz" using "1.prems" by (simp add: unat_gt_0)
  have r: "?r < ?sz" using "1.prems" by (simp add: word_less_nat_alt)
  show ?case
  proof (cases "i < n")
    case False
    with "1.prems" have "i = n" by simp
    then show ?thesis
      using r by (subst write_p0_loop.simps) simp
  next
    case True
    let ?obj1 = "obj\<lparr>arr := (arr obj)[?r := pdata ! unat i],
                     rear := word_of_nat ((?r + 1) mod ?sz)\<rparr>"
    have r1: "unat (rear ?obj1) = Suc ?r mod ?sz"
      using "1.prems" unat_of_nat_mod_u16 [of "size_rb obj" "Suc ?r"] by simp
    have lt1: "rear ?obj1 < size_rb ?obj1"
      using sz r1 by (simp add: word_less_nat_alt)
    have i1: "unat (i + 1) = Suc (unat i)" using True by (rule u16_succ_less)
    have d: "unat n - unat i = Suc (unat n - Suc (unat i))"
      using True by (simp add: word_less_nat_alt)
    have dt: "drop (unat i) (take (unat n) pdata)
                = pdata ! unat i # drop (Suc (unat i)) (take (unat n) pdata)"
      using True "1.prems" by (simp add: drop_take_step word_less_nat_alt)
    have m: "(Suc ?r mod ?sz + (unat n - Suc (unat i))) mod ?sz = (?r + (unat n - unat i)) mod ?sz"
      by (simp add: d mod_add_left_eq)
    have "write_p0_loop obj pdata n i = write_p0_loop ?obj1 pdata n (i + 1)"
      using True by (subst write_p0_loop.simps) simp
    also have "\<dots> = ?obj1\<lparr>arr := put_bytes (arr ?obj1) (unat (rear ?obj1)) (unat (size_rb ?obj1))
                   (drop (unat (i + 1)) (take (unat n) pdata)),
         rear := word_of_nat ((unat (rear ?obj1) + (unat n - unat (i + 1))) mod unat (size_rb ?obj1))\<rparr>"
      using "1.IH" [OF True _ lt1 u16_succ_le [OF True]] "1.prems" by simp
    also have "\<dots> = obj\<lparr>arr := put_bytes (arr obj) ?r ?sz (drop (unat i) (take (unat n) pdata)),
         rear := word_of_nat ((?r + (unat n - unat i)) mod ?sz)\<rparr>"
      unfolding r1 i1 dt using m by (cases obj) simp
    finally show ?thesis .
  qed
qed

lemma writeForce_loop_unfold:
  "i < n \<Longrightarrow>
   writeForce_loop obj pdata n i
     = writeForce_loop (force_step obj (pdata ! unat i)) pdata n (i + 1)"
  by (subst writeForce_loop.simps) (simp add: force_step_def)

lemma writeForce_loop_done: "\<not> i < n \<Longrightarrow> writeForce_loop obj pdata n i = obj"
  by (subst writeForce_loop.simps) simp

lemma adv_rear:
  "f < sz \<Longrightarrow> u \<le> sz \<Longrightarrow>
   ((f + (Suc u - sz)) mod sz + min (Suc u) sz) mod sz = Suc ((f + u) mod sz) mod sz"
proof (cases "u < sz")
  case True
  assume "f < sz"
  with True show ?thesis by (simp add: mod_Suc_eq)
next
  case False
  assume "f < sz" "u \<le> sz"
  with False have "u = sz" by simp
  with \<open>f < sz\<close> show ?thesis by (simp add: mod_Suc_eq)
qed

lemma adv_front:
  "u \<le> sz \<Longrightarrow>
   ((f + (Suc u - sz)) mod sz + (min (Suc u) sz + k - sz)) mod sz
     = (f + (u + Suc k - sz)) mod (sz :: nat)"
proof -
  assume "u \<le> sz"
  then have "(Suc u - sz) + (min (Suc u) sz + k - sz) = u + Suc k - sz"
    by (cases "u < sz") auto
  then show ?thesis by (metis mod_add_left_eq add.assoc)
qed

lemma adv_used: "min (min (Suc u) sz + k) sz = min (u + Suc k) (sz :: nat)"
  by auto

lemma unat_word_of_nat_le: "x \<le> unat (sz :: u16) \<Longrightarrow> unat (word_of_nat x :: u16) = x"
  by (rule le_unat_uoi)

lemma force_step_closed:
  assumes wf: "well_formed obj" and inv: "ring_inv obj"
    and nov: "unat (size_rb obj) = 65535 \<longrightarrow> used obj < size_rb obj"
  shows "force_step obj b =
     obj\<lparr>arr := (arr obj)[unat (rear obj) := b],
         rear := word_of_nat (Suc (unat (rear obj)) mod unat (size_rb obj)),
         used := word_of_nat (min (Suc (unat (used obj))) (unat (size_rb obj))),
         front := word_of_nat ((unat (front obj) + (Suc (unat (used obj)) - unat (size_rb obj)))
                     mod unat (size_rb obj))\<rparr>"
proof -
  let ?sz = "unat (size_rb obj)" and ?u = "unat (used obj)" and ?f = "unat (front obj)"
  have u: "?u \<le> ?sz" using inv by (simp add: ring_inv_def word_le_nat_alt)
  have f: "?f < ?sz" using wf by (simp add: well_formed_def word_less_nat_alt)
  have szb: "?sz < 65536" using unsigned_less [of "size_rb obj", where ?'a = nat] by simp
  show ?thesis
  proof (cases "?u < ?sz")
    case True
    then have s: "unat (used obj + 1) = Suc ?u"
      using unat_succ_u16 [of "used obj" "size_rb obj"] by simp
    then have ng: "\<not> used obj + 1 > size_rb obj"
      using True by (simp add: word_less_nat_alt)
    have e1: "word_of_nat (min (Suc ?u) ?sz) = used obj + 1"
      using True by (simp add: min_def)
    have e2: "word_of_nat ((?f + (Suc ?u - ?sz)) mod ?sz) = front obj"
      using True f by simp
    show ?thesis
      unfolding e1 e2 using ng by (cases obj) (simp add: force_step_def Let_def)
  next
    case False
    with u have eq: "?u = ?sz" by simp
    then have ne: "?sz \<noteq> 65535" using nov by (auto simp: word_less_nat_alt)
    have "unat (used obj + 1) = Suc ?u"
      using szb ne eq by (simp add: unat_word_ariths)
    then have g: "used obj + 1 > size_rb obj"
      using eq by (simp add: word_less_nat_alt)
    have e1: "word_of_nat (min (Suc ?u) ?sz) = size_rb obj"
      using eq by (simp add: min_def)
    have e2: "((?f + (Suc ?u - ?sz)) mod ?sz) = Suc ?f mod ?sz"
      using eq by simp
    show ?thesis
      unfolding e1 e2 using g by (cases obj) (simp add: force_step_def Let_def)
  qed
qed

lemma forced_fields:
  assumes "well_formed obj"
  shows "size_rb (forced obj bs) = size_rb obj"
    and "arr (forced obj bs) = put_bytes (arr obj) (unat (rear obj)) (unat (size_rb obj)) bs"
    and "unat (rear (forced obj bs)) = (unat (rear obj) + length bs) mod unat (size_rb obj)"
    and "unat (used (forced obj bs)) = min (unat (used obj) + length bs) (unat (size_rb obj))"
    and "unat (front (forced obj bs))
           = (unat (front obj) + (unat (used obj) + length bs - unat (size_rb obj)))
               mod unat (size_rb obj)"
proof -
  have sz: "size_rb obj \<noteq> 0" using assms by (simp add: well_formed_def)
  show "size_rb (forced obj bs) = size_rb obj" by (simp add: forced_def)
  show "arr (forced obj bs) = put_bytes (arr obj) (unat (rear obj)) (unat (size_rb obj)) bs"
    by (simp add: forced_def)
  show "unat (rear (forced obj bs)) = (unat (rear obj) + length bs) mod unat (size_rb obj)"
    using sz by (simp add: forced_def unat_of_nat_mod_u16)
  show "unat (used (forced obj bs)) = min (unat (used obj) + length bs) (unat (size_rb obj))"
    by (simp add: forced_def unat_word_of_nat_le [of _ "size_rb obj"])
  show "unat (front (forced obj bs))
           = (unat (front obj) + (unat (used obj) + length bs - unat (size_rb obj)))
               mod unat (size_rb obj)"
    using sz by (simp add: forced_def unat_of_nat_mod_u16)
qed

lemma ring_inv_rear:
  "ring_inv obj \<Longrightarrow>
   unat (rear obj) = (unat (front obj) + unat (used obj)) mod unat (size_rb obj)"
  by (simp add: ring_inv_def)

lemma adv_rear_many:
  "f < sz \<Longrightarrow> u \<le> sz \<Longrightarrow>
   ((f + (u + k - sz)) mod sz + min (u + k) sz) mod sz = ((f + u) mod sz + k) mod (sz :: nat)"
proof -
  assume "f < sz" "u \<le> sz"
  have "(u + k - sz) + min (u + k) sz = u + k" by auto
  then have "((f + (u + k - sz)) mod sz + min (u + k) sz) mod sz = (f + (u + k)) mod sz"
    by (metis mod_add_left_eq add.assoc)
  also have "\<dots> = ((f + u) mod sz + k) mod sz"
    by (simp add: mod_add_left_eq add.assoc)
  finally show ?thesis .
qed

lemma forced_well_formed:
  assumes "well_formed obj" "ring_inv obj"
  shows "well_formed (forced obj bs)" and "ring_inv (forced obj bs)"
proof -
  let ?sz = "unat (size_rb obj)"
  have sz: "0 < ?sz" using assms(1) by (simp add: well_formed_def unat_gt_0)
  have f: "unat (front obj) < ?sz" using assms(1) by (simp add: well_formed_def word_less_nat_alt)
  have u: "unat (used obj) \<le> ?sz" using assms(2) by (simp add: ring_inv_def word_le_nat_alt)
  show "well_formed (forced obj bs)"
    using assms(1) sz
    by (simp add: well_formed_def word_less_nat_alt forced_fields [OF assms(1)])
  show "ring_inv (forced obj bs)"
    using adv_rear_many [OF f u, of "length bs"] ring_inv_rear [OF assms(2)]
    by (simp add: ring_inv_def word_le_nat_alt forced_fields [OF assms(1)])
qed

lemma contents_forced:
  assumes "well_formed obj" "ring_inv obj"
  shows "contents (forced obj bs) = lastn (unat (size_rb obj)) (contents obj @ bs)"
proof -
  let ?sz = "unat (size_rb obj)"
  have sz: "0 < ?sz" using assms(1) by (simp add: well_formed_def unat_gt_0)
  have f: "unat (front obj) < ?sz" using assms(1) by (simp add: well_formed_def word_less_nat_alt)
  have u: "unat (used obj) \<le> ?sz" using assms(2) by (simp add: ring_inv_def word_le_nat_alt)
  have a: "length (arr obj) = ?sz" using assms(1) by (simp add: well_formed_def)
  show ?thesis
    using ring_put_bytes [OF sz f u a, of bs]
    by (simp add: contents_ring forced_fields [OF assms(1)] ring_inv_rear [OF assms(2)])
qed

lemma forced_Nil:
  assumes "well_formed obj" "ring_inv obj"
  shows "forced obj [] = obj"
proof -
  let ?sz = "unat (size_rb obj)"
  have r: "unat (rear obj) mod ?sz = unat (rear obj)"
    using assms(1) by (simp add: well_formed_def word_less_nat_alt)
  have f: "unat (front obj) mod ?sz = unat (front obj)"
    using assms(1) by (simp add: well_formed_def word_less_nat_alt)
  have u: "min (unat (used obj)) ?sz = unat (used obj)"
    and d: "unat (used obj) - ?sz = 0"
    using assms(2) by (simp_all add: ring_inv_def word_le_nat_alt)
  show ?thesis
    by (simp add: forced_def r f u d)
qed

lemma forced_Cons:
  assumes "well_formed obj" "ring_inv obj"
  shows "forced (forced obj [b]) bs = forced obj (b # bs)"
proof -
  let ?sz = "unat (size_rb obj)"
  have f: "unat (front obj) < ?sz" using assms(1) by (simp add: well_formed_def word_less_nat_alt)
  have u: "unat (used obj) \<le> ?sz" using assms(2) by (simp add: ring_inv_def word_le_nat_alt)
  have wf1: "well_formed (forced obj [b])" using assms by (rule forced_well_formed)
  note F = forced_fields [OF assms(1), of "[b]", simplified]
  have 1: "put_bytes (arr (forced obj [b])) (unat (rear (forced obj [b]))) ?sz bs
             = put_bytes (arr obj) (unat (rear obj)) ?sz (b # bs)"
    by (simp add: F)
  have 2: "(unat (rear (forced obj [b])) + length bs) mod ?sz
             = (unat (rear obj) + length (b # bs)) mod ?sz"
    by (simp add: F mod_add_left_eq)
  have 3: "min (unat (used (forced obj [b])) + length bs) ?sz
             = min (unat (used obj) + length (b # bs)) ?sz"
    using adv_used [of "unat (used obj)" ?sz "length bs"] by (simp add: F)
  have 4: "(unat (front (forced obj [b])) + (unat (used (forced obj [b])) + length bs - ?sz)) mod ?sz
             = (unat (front obj) + (unat (used obj) + length (b # bs) - ?sz)) mod ?sz"
    using adv_front [OF u, of "unat (front obj)" "length bs"] by (simp add: F)
  have "forced (forced obj [b]) bs =
     (forced obj [b])\<lparr>arr := put_bytes (arr obj) (unat (rear obj)) ?sz (b # bs),
         rear := word_of_nat ((unat (rear obj) + length (b # bs)) mod ?sz),
         used := word_of_nat (min (unat (used obj) + length (b # bs)) ?sz),
         front := word_of_nat ((unat (front obj) + (unat (used obj) + length (b # bs) - ?sz))
                     mod ?sz)\<rparr>"
    unfolding forced_def [of "forced obj [b]" bs] F(1) 1 2 3 4 ..
  also have "\<dots> = forced obj (b # bs)"
    by (cases obj) (simp add: forced_def)
  finally show ?thesis .
qed

lemma force_step_forced:
  assumes "well_formed obj" "ring_inv obj"
    and "unat (size_rb obj) = 65535 \<longrightarrow> used obj < size_rb obj"
  shows "force_step obj b = forced obj [b]"
  using force_step_closed [OF assms, of b] by (simp add: forced_def)

lemma writeForce_loop_forced:
  "well_formed obj \<Longrightarrow> ring_inv obj \<Longrightarrow> i \<le> n \<Longrightarrow> unat n \<le> length pdata \<Longrightarrow>
   (unat (size_rb obj) = 65535 \<longrightarrow> unat (used obj) + (unat n - unat i) \<le> 65535) \<Longrightarrow>
   writeForce_loop obj pdata n i = forced obj (drop (unat i) (take (unat n) pdata))"
proof (induction "unat n - unat i" arbitrary: obj i)
  case 0
  then have "i = n" by (simp add: word_le_nat_alt word_unat_eq_iff)
  then show ?case
    using 0 by (simp add: writeForce_loop_done forced_Nil)
next
  case (Suc k)
  let ?b = "pdata ! unat i"
  have lt: "i < n" using Suc.hyps(2) by (simp add: word_less_nat_alt)
  have i1: "unat (i + 1) = Suc (unat i)" using lt by (rule u16_succ_less)
  have k: "k = unat n - unat (i + 1)" using Suc.hyps(2) i1 by simp
  have u: "unat (used obj) \<le> unat (size_rb obj)"
    using Suc.prems(2) by (simp add: ring_inv_def word_le_nat_alt)
  have nov: "unat (size_rb obj) = 65535 \<longrightarrow> used obj < size_rb obj"
    using Suc.prems(5) Suc.hyps(2) by (auto simp: word_less_nat_alt)
  have st: "force_step obj ?b = forced obj [?b]"
    using Suc.prems(1,2) nov by (rule force_step_forced)
  have wf1: "well_formed (forced obj [?b])" and inv1: "ring_inv (forced obj [?b])"
    using Suc.prems(1,2) by (rule forced_well_formed)+
  have nov1: "unat (size_rb (forced obj [?b])) = 65535 \<longrightarrow>
              unat (used (forced obj [?b])) + (unat n - unat (i + 1)) \<le> 65535"
    using Suc.prems(5) Suc.hyps(2) i1 u
    by (auto simp: forced_fields [OF Suc.prems(1)])
  have dt: "drop (unat i) (take (unat n) pdata)
                = ?b # drop (Suc (unat i)) (take (unat n) pdata)"
    using lt Suc.prems(4) by (simp add: drop_take_step word_less_nat_alt)
  have "writeForce_loop obj pdata n i = writeForce_loop (forced obj [?b]) pdata n (i + 1)"
    using writeForce_loop_unfold [OF lt] st by simp
  also have "\<dots> = forced (forced obj [?b]) (drop (unat (i + 1)) (take (unat n) pdata))"
    using Suc.hyps(1) [OF k wf1 inv1 u16_succ_le [OF lt] Suc.prems(4) nov1] .
  also have "\<dots> = forced obj (drop (unat i) (take (unat n) pdata))"
    unfolding i1 dt by (rule forced_Cons [OF Suc.prems(1,2)])
  finally show ?case .
qed

lemma write_p0_loop_size [simp]: "size_rb (write_p0_loop obj pdata w i) = size_rb obj"
proof (induction obj pdata w i rule: write_p0_loop.induct)
  case (1 obj pdata w i)
  show ?case
  proof (cases "i < w")
    case True
    then show ?thesis
      using "1.IH" [OF True] by (subst write_p0_loop.simps) simp
  next
    case False
    then show ?thesis by (subst write_p0_loop.simps) simp
  qed
qed

lemma write_p0_loop_front [simp]: "front (write_p0_loop obj pdata w i) = front obj"
proof (induction obj pdata w i rule: write_p0_loop.induct)
  case (1 obj pdata w i)
  show ?case
  proof (cases "i < w")
    case True
    then show ?thesis
      using "1.IH" [OF True] by (subst write_p0_loop.simps) simp
  next
    case False
    then show ?thesis by (subst write_p0_loop.simps) simp
  qed
qed

lemma write_p0_forced:
  assumes wf: "well_formed obj" and inv: "ring_inv obj"
    and len: "unat n \<le> length pdata"
    and fits: "if force then n \<le> size_rb obj else n \<le> size_rb obj - used obj"
  shows "ringbuf_write_p0 obj pdata n force = (forced obj (take (unat n) pdata), n)"
proof (cases "n = 0")
  case True
  then show ?thesis
    using wf inv by (simp add: ringbuf_write_p0_def forced_Nil)
next
  case False
  let ?sz = "unat (size_rb obj)" and ?u = "unat (used obj)" and ?f = "unat (front obj)"
  let ?bs = "take (unat n) pdata"
  let ?space = "if force then size_rb obj else size_rb obj - used obj"
  have sz: "size_rb obj \<noteq> 0" and r: "rear obj < size_rb obj"
    using wf by (simp_all add: well_formed_def)
  have u: "?u \<le> ?sz" using inv by (simp add: ring_inv_def word_le_nat_alt)
  have f: "?f < ?sz" using wf by (simp add: well_formed_def word_less_nat_alt)
  have sp: "unat (size_rb obj - used obj) = ?sz - ?u"
    using inv by (simp add: ring_inv_def unat_sub)
  have lbs: "length ?bs = unat n" using len by simp
  have ngt: "\<not> n > ?space" using fits by (auto split: if_splits)
  have written: "(if n < ?space then n else ?space) = n" using fits by (auto split: if_splits)
  have "write_p0_loop obj pdata n 0 =
     obj\<lparr>arr := put_bytes (arr obj) (unat (rear obj)) ?sz
                   (drop (unat (0 :: u16)) (take (unat n) pdata)),
         rear := word_of_nat ((unat (rear obj) + (unat n - unat (0 :: u16))) mod ?sz)\<rparr>"
    by (rule write_p0_loop_closed [OF sz r _ len]) simp
  then have loop: "write_p0_loop obj pdata n 0 =
     obj\<lparr>arr := put_bytes (arr obj) (unat (rear obj)) ?sz ?bs,
         rear := word_of_nat ((unat (rear obj) + unat n) mod ?sz)\<rparr>"
    by simp
  let ?obj1 = "write_p0_loop obj pdata n 0"
  have cmp: "uint n > uint (size_rb obj) - uint (used obj) \<longleftrightarrow> unat n > ?sz - ?u"
  proof -
    have a: "uint n = int (unat n)" "uint (size_rb obj) = int ?sz" "uint (used obj) = int ?u"
      by (rule uint_nat)+
    show ?thesis unfolding a using u by linarith
  qed
  have unf: "ringbuf_write_p0 obj pdata n force =
    (if force \<and> uint n > uint (size_rb obj) - uint (used obj)
     then (?obj1\<lparr>front := word_of_nat
                       ((?f + unat (n - (size_rb obj - used obj))) mod ?sz),
                  used := size_rb obj\<rparr>, n)
     else (?obj1\<lparr>used := used obj + n\<rparr>, n))"
    unfolding ringbuf_write_p0_def
    by (simp only: Let_def False sz ngt written if_False simp_thms
          write_p0_loop_used write_p0_loop_size write_p0_loop_front)
  show ?thesis
  proof (cases "force \<and> unat n > ?sz - ?u")
    case True
    then have le: "size_rb obj - used obj \<le> n"
      by (simp add: word_le_nat_alt sp)
    have cov: "unat (n - (size_rb obj - used obj)) = ?u + unat n - ?sz"
      using u True by (simp add: unat_sub [OF le] sp)
    have "min (?u + unat n) ?sz = ?sz" using True u by linarith
    then have us: "word_of_nat (min (?u + unat n) ?sz) = size_rb obj"
      by simp
    have "ringbuf_write_p0 obj pdata n force =
            (?obj1\<lparr>front := word_of_nat ((?f + (?u + unat n - ?sz)) mod ?sz),
                    used := size_rb obj\<rparr>, n)"
      unfolding unf using True cmp cov by simp
    also have "\<dots> = (forced obj ?bs, n)"
      unfolding loop forced_def lbs us by (cases obj) simp
    finally show ?thesis .
  next
    case no: False
    then have fit2: "unat n \<le> ?sz - ?u"
      using fits by (auto simp: word_le_nat_alt sp split: if_splits)
    have "min (?u + unat n) ?sz = ?u + unat n" using fit2 u by linarith
    then have us: "word_of_nat (min (?u + unat n) ?sz) = used obj + n"
      by simp
    have "?u + unat n - ?sz = 0" using fit2 u by linarith
    then have fr: "word_of_nat ((?f + (?u + unat n - ?sz)) mod ?sz) = front obj"
      using f by simp
    have "ringbuf_write_p0 obj pdata n force = (?obj1\<lparr>used := used obj + n\<rparr>, n)"
      unfolding unf using no cmp by auto
    also have "\<dots> = (forced obj ?bs, n)"
      unfolding loop forced_def lbs us fr by (cases obj) simp
    finally show ?thesis .
  qed
qed

lemma write_forced:
  assumes "well_formed obj" "ring_inv obj" "unat n \<le> length pdata"
    and "n \<le> size_rb obj - used obj"
  shows "ringbuf_write obj pdata n = (forced obj (take (unat n) pdata), n)"
  using write_eq_write_p0 [OF assms(4), of pdata]
    write_p0_forced [OF assms(1,2,3), of False] assms(4)
  by simp

lemma writeForce_forced:
  assumes wf: "well_formed obj" and inv: "ring_inv obj" and len: "unat n \<le> length pdata"
    and nov: "unat (size_rb obj) = 65535 \<longrightarrow> unat (used obj) + unat n \<le> 65535"
  shows "ringbuf_writeForce obj pdata n = (forced obj (take (unat n) pdata), n)"
proof (cases "n = 0")
  case True
  then show ?thesis
    using wf inv by (simp add: ringbuf_writeForce_def forced_Nil)
next
  case False
  have sz: "size_rb obj \<noteq> 0" using wf by (simp add: well_formed_def)
  have "writeForce_loop obj pdata n 0 = forced obj (drop (unat (0 :: u16)) (take (unat n) pdata))"
    using nov by (intro writeForce_loop_forced [OF wf inv _ len]) simp_all
  with False sz show ?thesis
    by (simp add: ringbuf_writeForce_def)
qed

lemma read_contents:
  assumes wf: "well_formed obj" and inv: "ring_inv obj" and n: "n \<le> used obj"
  shows "ringbuf_read obj n =
           Some (obj\<lparr>front := word_of_nat ((unat (front obj) + unat n) mod unat (size_rb obj)),
                     used := used obj - n\<rparr>,
                 take (unat n) (contents obj), n)"
proof (cases "n = 0")
  case True
  have "word_of_nat (unat (front obj) mod unat (size_rb obj)) = front obj"
    using wf by (simp add: well_formed_def word_less_nat_alt)
  with True show ?thesis
    by (simp add: ringbuf_read_def)
next
  case False
  have sz: "size_rb obj \<noteq> 0" and f: "front obj < size_rb obj"
    using wf by (simp_all add: well_formed_def)
  have u0: "used obj \<noteq> 0" using n False by auto
  have "take (unat n) (contents obj)
          = map (\<lambda>j. arr obj ! ((unat (front obj) + j) mod unat (size_rb obj))) [0 ..< unat n]"
    using n by (simp add: contents_def take_map word_le_nat_alt min_def)
  then have loop: "read_loop obj [] n 0 =
      (obj\<lparr>front := word_of_nat ((unat (front obj) + unat n) mod unat (size_rb obj))\<rparr>,
       take (unat n) (contents obj))"
    using read_loop_closed [OF sz f, of 0 n "[]"] by simp
  show ?thesis
    using False u0 sz n by (simp add: ringbuf_read_def loop Let_def)
qed

lemma lastn_short: "length xs \<le> k \<Longrightarrow> lastn k xs = xs"
  by (simp add: lastn_def)

lemma lastn_append_long: "k \<le> length ys \<Longrightarrow> lastn k (xs @ ys) = drop (length ys - k) ys"
  by (simp add: lastn_def)

lemma lastn_append_evict:
  "length ys \<le> k \<Longrightarrow> lastn k (xs @ ys) = drop (length xs + length ys - k) xs @ ys"
  by (simp add: lastn_def)

lemma init_well_formed:
  assumes "ringbuf_init a c = Some obj" "length a = unat c"
  shows "well_formed obj" "ring_inv obj" "used obj = 0" "size_rb obj = c" "contents obj = []"
  using assms
  by (auto simp: ringbuf_init_def well_formed_def ring_inv_def contents_def word_greater_zero_iff
      split: if_splits)

section \<open>Resynchronisation\<close>

lemma word_mod_less_size: "sz \<noteq> 0 \<Longrightarrow> (x :: u16) mod sz < sz"
  by (simp add: word_less_nat_alt unat_mod unat_gt_0)

lemma word_mod_neq_size: "sz \<noteq> 0 \<Longrightarrow> (x :: u16) mod sz \<noteq> sz"
  using word_mod_less_size [of sz x] by auto

text \<open>
  C2 (the specification: a request with \<open>front = rear\<close> and \<open>used = capacity\<close> is accepted
  as the fully wrapped full buffer and leaves \<open>used = capacity\<close>).  The code reduces
  \<open>used\<close> modulo \<open>size\<close> before it validates, so the clause written for the full buffer,
  \<^verbatim>\<open>len == 0 && used == obj->size\<close>, can never hold: the call below, on a buffer of
  capacity 4 with \<open>front = rear = 1\<close> and \<open>used = 4\<close>, succeeds and records \<open>used = 0\<close>.
\<close>

theorem updatePointer_full_request_records_empty:
  "ringbuf_updatePointer \<lparr>arr = [1, 2, 3, 4], size_rb = 4, used = 2, front = 0, rear = 2\<rparr> 1 1 4
     = Some (\<lparr>arr = [1, 2, 3, 4], size_rb = 4, used = 0, front = 1, rear = 1\<rparr>, True)"
  by (simp add: ringbuf_updatePointer_def Let_def)

text \<open>
  C10: every successful \<^verbatim>\<open>ringbuf_updatePointer\<close> leaves \<open>used\<close> strictly below the
  capacity; a request with \<open>front = rear\<close> and \<open>used = size\<close> succeeds and records
  \<open>used = 0\<close>.
\<close>

theorem updatePointer_used_lt_size:
  "(ringbuf_updatePointer obj f r u = Some (obj', True) \<longrightarrow> used obj' < size_rb obj')
   \<and> (size_rb obj \<noteq> 0 \<longrightarrow>
        (\<exists>obj''. ringbuf_updatePointer obj f f (size_rb obj) = Some (obj'', True)
                 \<and> used obj'' = 0))"
  by (auto simp: ringbuf_updatePointer_def Let_def word_mod_less_size word_mod_neq_size
      split: if_splits)

theorem updatePointer_used_lt_size_witness:
  "ringbuf_updatePointer \<lparr>arr = [0,0,0,0], size_rb = 4, used = 0, front = 0, rear = 0\<rparr> 1 3 2
     = Some (\<lparr>arr = [0,0,0,0], size_rb = 4, used = 2, front = 1, rear = 3\<rparr>, True)
   \<and> used \<lparr>arr = [0,0,0,0], size_rb = 4, used = 2, front = 1, rear = 3\<rparr>
       < size_rb \<lparr>arr = [0,0,0,0], size_rb = 4, used = 2, front = 1, rear = 3\<rparr>
   \<and> size_rb \<lparr>arr = [0,0,0,0], size_rb = 4, used = 0, front = 0, rear = 0\<rparr> \<noteq> 0
   \<and> ringbuf_updatePointer \<lparr>arr = [0,0,0,0], size_rb = 4, used = 0, front = 0, rear = 0\<rparr> 3 3 4
     = Some (\<lparr>arr = [0,0,0,0], size_rb = 4, used = 0, front = 3, rear = 3\<rparr>, True)"
  using updatePointer_used_lt_size
    [of "\<lparr>arr = [0,0,0,0], size_rb = 4, used = 0, front = 0, rear = 0\<rparr>" 1 3 2
        "\<lparr>arr = [0,0,0,0], size_rb = 4, used = 2, front = 1, rear = 3\<rparr>"]
    updatePointer_used_lt_size
    [of "\<lparr>arr = [0,0,0,0], size_rb = 4, used = 0, front = 0, rear = 0\<rparr>" 3]
  by (simp add: ringbuf_updatePointer_def Let_def)

section \<open>String scan\<close>

text \<open>
  C4 (the specification: the scan covers the valid region only, relative positions
  \<open>index .. used - 1\<close>, and the result is \<open>- 1\<close> when the byte is not there).  The loop
  of \<^verbatim>\<open>ringbuf_strchr\<close> runs \<open>used\<close> times from \<open>index\<close>, whatever \<open>index\<close> is, so with
  \<open>index > 0\<close> it reads slots beyond the valid region.  Here the valid bytes are
  \<open>[97, 98]\<close>, the byte 99 lies in the free slot after them, and the search from
  \<open>index = 1\<close> returns 0 instead of \<open>- 1\<close>.
\<close>

theorem strchr_scans_past_valid_region:
  "contents \<lparr>arr = [97, 98, 99, 0, 0, 0, 0, 0], size_rb = 8, used = 2, front = 0, rear = 2\<rparr>
     = [97, 98]
   \<and> ringbuf_strchr
         \<lparr>arr = [97, 98, 99, 0, 0, 0, 0, 0], size_rb = 8, used = 2, front = 0, rear = 2\<rparr> 1 99
       = Some 0"
  by code_simp

text \<open>
  The example of the specification, a search from \<open>index = 0\<close> across the wrap: the
  buffer of capacity 8 with \<open>front = 6\<close>, \<open>used = 5\<close> holds \<open>"cd\\0ab"\<close>, and \<open>'b'\<close> is
  found at relative index 4.
\<close>

lemma strchr_wraparound_example:
  "contents \<lparr>arr = [0, 97, 98, 1, 1, 1, 99, 100], size_rb = 8, used = 5, front = 6, rear = 3\<rparr>
     = [99, 100, 0, 97, 98]
   \<and> ringbuf_strchr
         \<lparr>arr = [0, 97, 98, 1, 1, 1, 99, 100], size_rb = 8, used = 5, front = 6, rear = 3\<rparr> 0 98
       = Some 4"
  by code_simp

text \<open>
  From \<open>index = 0\<close> the search is right at every buffer: it returns the position of the
  first occurrence in the logical contents, or \<open>- 1\<close>.
\<close>

lemma strchr_loop_from_front:
  "well_formed obj \<Longrightarrow> count \<le> used obj \<Longrightarrow>
   unat start = (unat (front obj) + unat count) mod unat (size_rb obj) \<Longrightarrow>
   strchr_loop obj 0 ch start count =
     (if ch \<in> set (drop (unat count) (contents obj))
      then int (unat count + length (takeWhile (\<lambda>y. y \<noteq> ch) (drop (unat count) (contents obj))))
      else - 1)"
proof (induction obj "0 :: u16" ch start count rule: strchr_loop.induct)
  case (1 obj ch start count)
  let ?sz = "unat (size_rb obj)" and ?u = "unat (used obj)" and ?c = "unat count"
  have sz: "size_rb obj \<noteq> 0" using "1.prems" by (simp add: well_formed_def)
  show ?case
  proof (cases "count < used obj")
    case False
    with "1.prems" have "count = used obj" by simp
    then show ?thesis
      by (subst strchr_loop.simps) (simp add: contents_def)
  next
    case True
    then have cu: "?c < ?u" by (simp add: word_less_nat_alt)
    have lc: "length (contents obj) = ?u" by (simp add: contents_def)
    have hd: "contents obj ! ?c = arr obj ! unat start"
      using cu "1.prems"(3) by (simp add: contents_def)
    have dr: "drop ?c (contents obj) = arr obj ! unat start # drop (Suc ?c) (contents obj)"
      using Cons_nth_drop_Suc [of ?c "contents obj"] cu lc hd by simp
    show ?thesis
    proof (cases "arr obj ! unat start = ch")
      case eq: True
      have "strchr_loop obj 0 ch start count = int (?c mod ?u)"
        using True eq by (subst strchr_loop.simps) simp
      then show ?thesis using cu eq by (simp add: dr)
    next
      case ne: False
      let ?s1 = "word_of_nat ((unat start + 1) mod ?sz) :: u16"
      have c1: "unat (count + 1) = Suc ?c" using True by (rule u16_succ_less)
      have "unat ?s1 = Suc (unat start) mod ?sz"
        using unat_of_nat_mod_u16 [OF sz, of "Suc (unat start)"] by simp
      also have "\<dots> = (unat (front obj) + unat (count + 1)) mod ?sz"
        by (simp add: "1.prems"(3) c1 mod_Suc_eq)
      finally have s1: "unat ?s1 = (unat (front obj) + unat (count + 1)) mod ?sz" .
      have "strchr_loop obj 0 ch start count = strchr_loop obj 0 ch ?s1 (count + 1)"
        using True ne by (subst strchr_loop.simps) simp
      also have "\<dots> = (if ch \<in> set (drop (unat (count + 1)) (contents obj))
          then int (unat (count + 1)
                 + length (takeWhile (\<lambda>y. y \<noteq> ch) (drop (unat (count + 1)) (contents obj))))
          else - 1)"
        using "1.hyps" [OF True ne "1.prems"(1) u16_succ_le [OF True] s1] .
      finally show ?thesis using ne by (simp add: dr c1)
    qed
  qed
qed

lemma strchr_from_front:
  assumes "well_formed obj"
  shows "ringbuf_strchr obj 0 ch = Some (first_index (contents obj) ch)"
proof (cases "used obj = 0")
  case True
  then show ?thesis by (simp add: ringbuf_strchr_def first_index_def contents_def)
next
  case False
  have sz: "size_rb obj \<noteq> 0" and f: "front obj < size_rb obj"
    using assms by (simp_all add: well_formed_def)
  let ?s = "word_of_nat ((unat (front obj) + unat (0 :: u16)) mod unat (size_rb obj)) :: u16"
  have "unat ?s = (unat (front obj) + unat (0 :: u16)) mod unat (size_rb obj)"
    using sz by (rule unat_of_nat_mod_u16)
  then have "strchr_loop obj 0 ch ?s 0 =
     (if ch \<in> set (drop (unat (0 :: u16)) (contents obj))
      then int (unat (0 :: u16)
             + length (takeWhile (\<lambda>y. y \<noteq> ch) (drop (unat (0 :: u16)) (contents obj))))
      else - 1)"
    by (intro strchr_loop_from_front [OF assms]) simp_all
  then show ?thesis
    using False sz by (simp add: ringbuf_strchr_def first_index_def word_le_nat_alt unat_gt_0)
qed

section \<open>Forced writes longer than the capacity\<close>

text \<open>
  Whatever happens to \<open>used\<close> and \<open>front\<close>, the loop of \<^verbatim>\<open>ringbuf_writeForce\<close> stores
  the bytes of the request one after the other from \<open>rear\<close> on, wrapping at \<open>size\<close>.
\<close>

lemma force_step_storage:
  "arr (force_step obj b) = (arr obj)[unat (rear obj) := b]
   \<and> rear (force_step obj b) = word_of_nat (Suc (unat (rear obj)) mod unat (size_rb obj))
   \<and> size_rb (force_step obj b) = size_rb obj"
  by (simp add: force_step_def Let_def)

lemma writeForce_loop_storage:
  "size_rb obj \<noteq> 0 \<Longrightarrow> rear obj < size_rb obj \<Longrightarrow> i \<le> n \<Longrightarrow> unat n \<le> length pdata \<Longrightarrow>
   arr (writeForce_loop obj pdata n i)
     = put_bytes (arr obj) (unat (rear obj)) (unat (size_rb obj))
         (drop (unat i) (take (unat n) pdata))
   \<and> unat (rear (writeForce_loop obj pdata n i))
       = (unat (rear obj) + (unat n - unat i)) mod unat (size_rb obj)
   \<and> size_rb (writeForce_loop obj pdata n i) = size_rb obj"
proof (induction "unat n - unat i" arbitrary: obj i)
  case 0
  then have "i = n" by (simp add: word_le_nat_alt word_unat_eq_iff)
  then show ?case
    using 0 by (simp add: writeForce_loop_done word_less_nat_alt)
next
  case (Suc k)
  let ?b = "pdata ! unat i" and ?sz = "unat (size_rb obj)" and ?r = "unat (rear obj)"
  let ?o1 = "force_step obj ?b"
  have lt: "i < n" using Suc.hyps(2) by (simp add: word_less_nat_alt)
  have i1: "unat (i + 1) = Suc (unat i)" using lt by (rule u16_succ_less)
  have k: "k = unat n - unat (i + 1)" using Suc.hyps(2) i1 by simp
  have szp: "0 < ?sz" using Suc.prems(1) by (simp add: unat_gt_0)
  note S = force_step_storage [of obj ?b]
  have sz1: "size_rb ?o1 \<noteq> 0" using Suc.prems(1) S by simp
  have r1: "unat (rear ?o1) = Suc ?r mod ?sz"
    using unat_of_nat_mod_u16 [OF Suc.prems(1), of "Suc ?r"] S by simp
  have lt1: "rear ?o1 < size_rb ?o1"
    using szp r1 S by (simp add: word_less_nat_alt)
  have dt: "drop (unat i) (take (unat n) pdata)
                = ?b # drop (Suc (unat i)) (take (unat n) pdata)"
    using lt Suc.prems(4) by (simp add: drop_take_step word_less_nat_alt)
  have d: "unat n - unat i = Suc (unat n - Suc (unat i))"
    using lt by (simp add: word_less_nat_alt)
  have m: "(Suc ?r mod ?sz + (unat n - Suc (unat i))) mod ?sz = (?r + (unat n - unat i)) mod ?sz"
    by (simp add: d mod_add_left_eq)
  have u: "writeForce_loop obj pdata n i = writeForce_loop ?o1 pdata n (i + 1)"
    using lt by (rule writeForce_loop_unfold)
  have IH: "arr (writeForce_loop ?o1 pdata n (i + 1))
     = put_bytes (arr ?o1) (unat (rear ?o1)) (unat (size_rb ?o1))
         (drop (unat (i + 1)) (take (unat n) pdata))
   \<and> unat (rear (writeForce_loop ?o1 pdata n (i + 1)))
       = (unat (rear ?o1) + (unat n - unat (i + 1))) mod unat (size_rb ?o1)
   \<and> size_rb (writeForce_loop ?o1 pdata n (i + 1)) = size_rb ?o1"
    using Suc.hyps(1) [OF k sz1 lt1 u16_succ_le [OF lt] Suc.prems(4)] .
  have a1: "arr ?o1 = (arr obj)[?r := ?b]" and s1: "size_rb ?o1 = size_rb obj"
    using S by simp_all
  show ?case
    unfolding u using IH unfolding r1 i1 a1 s1 dt m by simp
qed

lemma writeForce_storage:
  assumes wf: "well_formed obj" and len: "unat n \<le> length pdata"
  shows "arr (fst (ringbuf_writeForce obj pdata n))
           = put_bytes (arr obj) (unat (rear obj)) (unat (size_rb obj)) (take (unat n) pdata)"
    and "unat (rear (fst (ringbuf_writeForce obj pdata n)))
           = (unat (rear obj) + unat n) mod unat (size_rb obj)"
    and "size_rb (fst (ringbuf_writeForce obj pdata n)) = size_rb obj"
proof -
  have sz: "size_rb obj \<noteq> 0" and r: "rear obj < size_rb obj"
    using wf by (simp_all add: well_formed_def)
  have L: "arr (writeForce_loop obj pdata n 0)
     = put_bytes (arr obj) (unat (rear obj)) (unat (size_rb obj))
         (drop (unat (0 :: u16)) (take (unat n) pdata))
   \<and> unat (rear (writeForce_loop obj pdata n 0))
       = (unat (rear obj) + (unat n - unat (0 :: u16))) mod unat (size_rb obj)
   \<and> size_rb (writeForce_loop obj pdata n 0) = size_rb obj"
    by (rule writeForce_loop_storage [OF sz r _ len]) simp
  have e: "ringbuf_writeForce obj pdata n = (writeForce_loop obj pdata n 0, n)"
  proof (cases "n = 0")
    case True
    then show ?thesis by (simp add: ringbuf_writeForce_def writeForce_loop_done)
  next
    case False
    then show ?thesis using sz by (simp add: ringbuf_writeForce_def)
  qed
  show "arr (fst (ringbuf_writeForce obj pdata n))
           = put_bytes (arr obj) (unat (rear obj)) (unat (size_rb obj)) (take (unat n) pdata)"
    and "unat (rear (fst (ringbuf_writeForce obj pdata n)))
           = (unat (rear obj) + unat n) mod unat (size_rb obj)"
    and "size_rb (fst (ringbuf_writeForce obj pdata n)) = size_rb obj"
    using L by (simp_all add: e)
qed

text \<open>
  C3 as stated (every force write returns at most the capacity) fails for
  \<^verbatim>\<open>ringbuf_writeForce\<close>: on a buffer of capacity 2 a request of 3 bytes returns 3.
\<close>

theorem writeForce_returns_more_than_capacity:
  "\<not> snd (ringbuf_writeForce \<lparr>arr = [0, 0], size_rb = 2, used = 0, front = 0, rear = 0\<rparr>
             [1, 2, 3] 3)
       \<le> size_rb \<lparr>arr = [0, 0], size_rb = 2, used = 0, front = 0, rear = 0\<rparr>"
  by code_simp

text \<open>
  C3, amended.  \<^verbatim>\<open>ringbuf_writeForce\<close> returns the requested length \<open>n\<close>, also when
  \<open>n\<close> exceeds the capacity, and stores every byte of the request in turn, from \<open>rear\<close>
  on and wrapping (\<open>put_bytes\<close>), so that a later byte of the request overwrites an
  earlier one when \<open>n > size\<close>; \<open>rear\<close> advances by \<open>n\<close> modulo \<open>size\<close>.  Unless the
  capacity is \<open>65535\<close> and \<open>used + n\<close> passes it, the whole state is given: \<open>used\<close> is
  \<open>min (used + n) size\<close>, \<open>front\<close> advances by the overlap, and the contents are the last
  \<open>size\<close> bytes of the old contents followed by the request; for \<open>n > size\<close> these are
  the last \<open>size\<close> bytes of the request.  The forced write of the second variant returns
  at most the capacity: for \<open>n \<le> size\<close> it reaches that same state and returns \<open>n\<close>, and
  it refuses a request longer than the capacity whole, returning 0 and leaving the
  buffer as it was.
\<close>

theorem force_write_beyond_capacity:
  assumes "well_formed obj" and "ring_inv obj" and "unat n \<le> length pdata"
  shows "snd (ringbuf_writeForce obj pdata n) = n
       \<and> arr (fst (ringbuf_writeForce obj pdata n))
           = put_bytes (arr obj) (unat (rear obj)) (unat (size_rb obj)) (take (unat n) pdata)
       \<and> unat (rear (fst (ringbuf_writeForce obj pdata n)))
           = (unat (rear obj) + unat n) mod unat (size_rb obj)
       \<and> size_rb (fst (ringbuf_writeForce obj pdata n)) = size_rb obj
       \<and> (size_rb obj \<noteq> 65535 \<or> unat (used obj) + unat n \<le> 65535 \<longrightarrow>
            ringbuf_writeForce obj pdata n =
              (obj\<lparr>arr := put_bytes (arr obj) (unat (rear obj)) (unat (size_rb obj))
                            (take (unat n) pdata),
                   rear := word_of_nat ((unat (rear obj) + unat n) mod unat (size_rb obj)),
                   used := word_of_nat (min (unat (used obj) + unat n) (unat (size_rb obj))),
                   front := word_of_nat
                     ((unat (front obj) + (unat (used obj) + unat n - unat (size_rb obj)))
                        mod unat (size_rb obj))\<rparr>, n)
            \<and> contents (fst (ringbuf_writeForce obj pdata n))
                = lastn (unat (size_rb obj)) (contents obj @ take (unat n) pdata))
       \<and> (n > size_rb obj \<longrightarrow>
            used (fst (ringbuf_writeForce obj pdata n)) = size_rb obj
            \<and> contents (fst (ringbuf_writeForce obj pdata n))
                = drop (unat n - unat (size_rb obj)) (take (unat n) pdata))
       \<and> snd (ringbuf_write_p0 obj pdata n True) \<le> size_rb obj
       \<and> (n \<le> size_rb obj \<longrightarrow>
            ringbuf_write_p0 obj pdata n True =
              (obj\<lparr>arr := put_bytes (arr obj) (unat (rear obj)) (unat (size_rb obj))
                            (take (unat n) pdata),
                   rear := word_of_nat ((unat (rear obj) + unat n) mod unat (size_rb obj)),
                   used := word_of_nat (min (unat (used obj) + unat n) (unat (size_rb obj))),
                   front := word_of_nat
                     ((unat (front obj) + (unat (used obj) + unat n - unat (size_rb obj)))
                        mod unat (size_rb obj))\<rparr>, n))
       \<and> (n > size_rb obj \<longrightarrow> ringbuf_write_p0 obj pdata n True = (obj, 0))"
proof -
  let ?sz = "unat (size_rb obj)" and ?bs = "take (unat n) pdata"
  let ?R = "obj\<lparr>arr := put_bytes (arr obj) (unat (rear obj)) ?sz ?bs,
                 rear := word_of_nat ((unat (rear obj) + unat n) mod ?sz),
                 used := word_of_nat (min (unat (used obj) + unat n) ?sz),
                 front := word_of_nat
                   ((unat (front obj) + (unat (used obj) + unat n - ?sz)) mod ?sz)\<rparr>"
  have lbs: "length ?bs = unat n" using assms(3) by simp
  have R: "forced obj ?bs = ?R" unfolding forced_def lbs ..
  have 1: "snd (ringbuf_writeForce obj pdata n) = n"
    using assms(1) by (simp add: ringbuf_writeForce_def well_formed_def)
  note 2 = writeForce_storage [OF assms(1,3)]
  have w: "ringbuf_writeForce obj pdata n = (forced obj ?bs, n)"
    if "?sz = 65535 \<longrightarrow> unat (used obj) + unat n \<le> 65535"
    using assms that by (rule writeForce_forced)
  have c: "contents (forced obj ?bs) = lastn ?sz (contents obj @ ?bs)"
    using assms(1,2) by (rule contents_forced)
  have 3: "ringbuf_writeForce obj pdata n = (?R, n)
           \<and> contents (fst (ringbuf_writeForce obj pdata n)) = lastn ?sz (contents obj @ ?bs)"
    if h: "size_rb obj \<noteq> 65535 \<or> unat (used obj) + unat n \<le> 65535"
  proof -
    have "?sz = 65535 \<longrightarrow> unat (used obj) + unat n \<le> 65535"
      using h by (auto simp: word_unat_eq_iff)
    then have e: "ringbuf_writeForce obj pdata n = (forced obj ?bs, n)" by (rule w)
    have A: "ringbuf_writeForce obj pdata n = (?R, n)" unfolding e R ..
    have B: "contents (fst (ringbuf_writeForce obj pdata n)) = lastn ?sz (contents obj @ ?bs)"
      unfolding e fst_conv by (rule c)
    show ?thesis using A B by (rule conjI)
  qed
  have 4: "used (fst (ringbuf_writeForce obj pdata n)) = size_rb obj
           \<and> contents (fst (ringbuf_writeForce obj pdata n)) = drop (unat n - ?sz) ?bs"
    if gt: "n > size_rb obj"
  proof -
    have n: "?sz < unat n" using gt by (simp add: word_less_nat_alt)
    have "unat n < 65536" using unsigned_less [of n, where ?'a = nat] by simp
    with n have nov: "?sz = 65535 \<longrightarrow> unat (used obj) + unat n \<le> 65535" by simp
    note w' = w [OF nov]
    have "unat (used (forced obj ?bs)) = min (unat (used obj) + unat n) ?sz"
      using forced_fields(4) [OF assms(1), of ?bs] unfolding lbs .
    then have "unat (used (forced obj ?bs)) = ?sz" using n by simp
    then have a: "used (fst (ringbuf_writeForce obj pdata n)) = size_rb obj"
      by (simp add: w' word_unat_eq_iff)
    have "?sz \<le> length ?bs" using n lbs by simp
    then have "lastn ?sz (contents obj @ ?bs) = drop (length ?bs - ?sz) ?bs"
      by (rule lastn_append_long)
    then have "contents (fst (ringbuf_writeForce obj pdata n)) = drop (unat n - ?sz) ?bs"
      unfolding lbs by (simp only: w' fst_conv c)
    with a show ?thesis by simp
  qed
  have 6: "ringbuf_write_p0 obj pdata n True = (?R, n)" if le: "n \<le> size_rb obj"
    using write_p0_forced [OF assms, of True] le by (simp only: R if_True)
  have 7: "ringbuf_write_p0 obj pdata n True = (obj, 0)" if gt: "n > size_rb obj"
    using gt by (simp add: ringbuf_write_p0_def)
  have 5: "snd (ringbuf_write_p0 obj pdata n True) \<le> size_rb obj"
  proof (cases "n \<le> size_rb obj")
    case True
    then show ?thesis using 6 by simp
  next
    case False
    then have "size_rb obj < n" by simp
    then show ?thesis using 7 by simp
  qed
  show ?thesis
    using 1 2 3 4 5 6 7 by blast
qed

theorem force_write_beyond_capacity_witness:
  "well_formed \<lparr>arr = [0, 0], size_rb = 2, used = 0, front = 0, rear = 0\<rparr>
   \<and> ring_inv \<lparr>arr = [0, 0], size_rb = 2, used = 0, front = 0, rear = 0\<rparr>
   \<and> unat (3 :: u16) \<le> length [1 :: u8, 2, 3]
   \<and> (3 :: u16) > size_rb \<lparr>arr = [0, 0], size_rb = 2, used = 0, front = 0, rear = 0\<rparr>
   \<and> size_rb \<lparr>arr = [0, 0], size_rb = 2, used = 0, front = 0, rear = 0\<rparr> \<noteq> 65535
   \<and> ringbuf_writeForce \<lparr>arr = [0, 0], size_rb = 2, used = 0, front = 0, rear = 0\<rparr>
         [1, 2, 3] 3
       = (\<lparr>arr = [3, 2], size_rb = 2, used = 2, front = 1, rear = 1\<rparr>, 3)
   \<and> put_bytes [0 :: u8, 0] 0 2 [1, 2, 3] = [3, 2]
   \<and> contents \<lparr>arr = [3, 2], size_rb = 2, used = 2, front = 1, rear = 1\<rparr> = [2, 3]
   \<and> ringbuf_write_p0 \<lparr>arr = [0, 0], size_rb = 2, used = 0, front = 0, rear = 0\<rparr>
            [1, 2, 3] 3 True
       = (\<lparr>arr = [0, 0], size_rb = 2, used = 0, front = 0, rear = 0\<rparr>, 0)
   \<and> (2 :: u16) \<le> size_rb \<lparr>arr = [0, 0], size_rb = 2, used = 0, front = 0, rear = 0\<rparr>
   \<and> ringbuf_write_p0 \<lparr>arr = [0, 0], size_rb = 2, used = 0, front = 0, rear = 0\<rparr>
            [1, 2, 3] 2 True
       = (\<lparr>arr = [1, 2], size_rb = 2, used = 2, front = 0, rear = 0\<rparr>, 2)"
proof -
  let ?o = "\<lparr>arr = [0, 0], size_rb = 2, used = 0, front = 0, rear = 0\<rparr>"
  have h1: "well_formed ?o" by (simp add: well_formed_def)
  have h2: "ring_inv ?o" by (simp add: ring_inv_def)
  have h3: "unat (3 :: u16) \<le> length [1 :: u8, 2, 3]" by simp
  have h3': "unat (2 :: u16) \<le> length [1 :: u8, 2, 3]" by simp
  have h4: "(3 :: u16) > size_rb ?o" "size_rb ?o \<noteq> 65535" "(2 :: u16) \<le> size_rb ?o"
    by simp_all
  have p: "put_bytes [0 :: u8, 0] 0 2 [1, 2, 3] = [3, 2]" by simp
  have p': "put_bytes [0 :: u8, 0] 0 2 [1, 2] = [1, 2]" by simp
  have c: "contents \<lparr>arr = [3, 2], size_rb = 2, used = 2, front = 1, rear = 1\<rparr> = [2, 3]"
    by code_simp
  show ?thesis
    using h1 h2 h3 h4 p c force_write_beyond_capacity [OF h1 h2 h3]
      force_write_beyond_capacity [OF h1 h2 h3']
    by (simp add: p')
qed

section \<open>Round trip\<close>

text \<open>
  C5: on a freshly initialised buffer of capacity \<open>c\<close>, writing \<open>n \<le> c\<close> bytes \<open>bs\<close>
  with \<^verbatim>\<open>ringbuf_write\<close> and reading \<open>n\<close> bytes with \<^verbatim>\<open>ringbuf_read\<close> returns \<open>bs\<close>, in
  order, and leaves the buffer empty.
\<close>

theorem write_read_roundtrip:
  assumes "ringbuf_init a c = Some obj" and "length a = unat c"
    and "length bs = unat n" and "n \<le> c"
  shows "\<exists>obj1 obj2. ringbuf_write obj bs n = (obj1, n)
           \<and> ringbuf_read obj1 n = Some (obj2, bs, n) \<and> ringbuf_isEmpty obj2"
proof -
  note I = init_well_formed [OF assms(1,2)]
  have fit: "n \<le> size_rb obj - used obj" using assms(4) I(3,4) by simp
  have w: "ringbuf_write obj bs n = (forced obj bs, n)"
    using write_forced [OF I(1,2) _ fit, of bs] assms(3) by simp
  have wf1: "well_formed (forced obj bs)" and inv1: "ring_inv (forced obj bs)"
    using I(1,2) by (rule forced_well_formed)+
  have le: "unat n \<le> unat (size_rb obj)" using assms(4) I(4) by (simp add: word_le_nat_alt)
  have c1: "contents (forced obj bs) = bs"
    using le by (simp add: contents_forced [OF I(1,2)] I(5) lastn_short assms(3))
  have "unat (used (forced obj bs)) = unat n"
    using le by (simp add: forced_fields [OF I(1)] I(3) assms(3))
  then have u1: "used (forced obj bs) = n" by (simp add: word_unat_eq_iff)
  have "ringbuf_read (forced obj bs) n =
          Some ((forced obj bs)\<lparr>front := word_of_nat ((unat (front (forced obj bs)) + unat n)
                     mod unat (size_rb (forced obj bs))), used := used (forced obj bs) - n\<rparr>,
                take (unat n) (contents (forced obj bs)), n)"
    using u1 by (intro read_contents [OF wf1 inv1]) simp
  then have r: "ringbuf_read (forced obj bs) n =
          Some ((forced obj bs)\<lparr>front := word_of_nat ((unat (front (forced obj bs)) + unat n)
                     mod unat (size_rb (forced obj bs))), used := 0\<rparr>, bs, n)"
    by (simp add: c1 u1 assms(3))
  show ?thesis
    using w r by (auto simp: ringbuf_isEmpty_def)
qed

theorem write_read_roundtrip_witness:
  "ringbuf_init [0, 0, 0, 0] 4 = Some \<lparr>arr = [0, 0, 0, 0], size_rb = 4, used = 0, front = 0, rear = 0\<rparr>
   \<and> length [0 :: u8, 0, 0, 0] = unat (4 :: u16) \<and> length [7 :: u8, 8, 9] = unat (3 :: u16)
   \<and> (3 :: u16) \<le> 4
   \<and> (\<exists>obj1 obj2.
         ringbuf_write \<lparr>arr = [0, 0, 0, 0], size_rb = 4, used = 0, front = 0, rear = 0\<rparr> [7, 8, 9] 3
           = (obj1, 3)
         \<and> ringbuf_read obj1 3 = Some (obj2, [7, 8, 9], 3) \<and> ringbuf_isEmpty obj2)"
proof -
  have h1: "ringbuf_init [0, 0, 0, 0] 4
              = Some \<lparr>arr = [0, 0, 0, 0], size_rb = 4, used = 0, front = 0, rear = 0\<rparr>"
    by (simp add: ringbuf_init_def)
  have h2: "length [0 :: u8, 0, 0, 0] = unat (4 :: u16)" by simp
  have h3: "length [7 :: u8, 8, 9] = unat (3 :: u16)" by simp
  have h4: "(3 :: u16) \<le> 4" by simp
  show ?thesis
    using h1 h2 h3 h4 write_read_roundtrip [OF h1 h2 h3 h4] by blast
qed

section \<open>Strict read\<close>

text \<open>
  C6: when the requested length exceeds \<open>used\<close>, the strict read of the second variant
  returns 0, copies nothing and leaves the buffer unchanged; the read that is not
  strict returns \<open>used\<close> and all stored bytes, and leaves \<open>used = 0\<close>.
\<close>

theorem read_p0_strict_all_or_nothing:
  assumes "well_formed obj" and "n > used obj"
  shows "ringbuf_read_p0 obj n True = Some (obj, [], 0)
       \<and> ringbuf_read_p0 obj n False =
           Some (obj\<lparr>front := word_of_nat
                            ((unat (front obj) + unat (used obj)) mod unat (size_rb obj)),
                     used := 0\<rparr>,
                 contents obj, used obj)"
proof (cases "used obj = 0")
  case True
  have "word_of_nat (unat (front obj) mod unat (size_rb obj)) = front obj"
    using assms(1) by (simp add: well_formed_def word_less_nat_alt)
  with True assms show ?thesis
    by (simp add: ringbuf_read_p0_def contents_Nil)
next
  case False
  have sz: "size_rb obj \<noteq> 0" and f: "front obj < size_rb obj"
    using assms(1) by (simp_all add: well_formed_def)
  have n0: "n \<noteq> 0" using assms(2) by auto
  have strict: "ringbuf_read_p0 obj n True = Some (obj, [], 0)"
    using assms(2) by (simp add: ringbuf_read_p0_def)
  have loop: "read_loop obj [] (used obj) 0 =
      (obj\<lparr>front := word_of_nat ((unat (front obj) + unat (used obj)) mod unat (size_rb obj))\<rparr>,
       contents obj)"
    using read_loop_closed [OF sz f, of 0 "used obj" "[]"] by (simp add: contents_def)
  have "ringbuf_read_p0 obj n False =
           Some (obj\<lparr>front := word_of_nat
                            ((unat (front obj) + unat (used obj)) mod unat (size_rb obj)),
                     used := 0\<rparr>,
                 contents obj, used obj)"
    using False n0 sz assms(2) by (simp add: ringbuf_read_p0_def loop Let_def)
  with strict show ?thesis by simp
qed

theorem read_p0_strict_all_or_nothing_witness:
  "well_formed \<lparr>arr = [0, 0, 7, 8, 9], size_rb = 5, used = 3, front = 2, rear = 0\<rparr>
   \<and> (5 :: u16) > used \<lparr>arr = [0, 0, 7, 8, 9], size_rb = 5, used = 3, front = 2, rear = 0\<rparr>
   \<and> ringbuf_read_p0 \<lparr>arr = [0, 0, 7, 8, 9], size_rb = 5, used = 3, front = 2, rear = 0\<rparr> 5 True
       = Some (\<lparr>arr = [0, 0, 7, 8, 9], size_rb = 5, used = 3, front = 2, rear = 0\<rparr>, [], 0)
   \<and> ringbuf_read_p0 \<lparr>arr = [0, 0, 7, 8, 9], size_rb = 5, used = 3, front = 2, rear = 0\<rparr> 5 False
       = Some (\<lparr>arr = [0, 0, 7, 8, 9], size_rb = 5, used = 0, front = 0, rear = 0\<rparr>, [7, 8, 9], 3)"
proof -
  let ?o = "\<lparr>arr = [0, 0, 7, 8, 9], size_rb = 5, used = 3, front = 2, rear = 0\<rparr>"
  have h1: "well_formed ?o" by (simp add: well_formed_def)
  have h2: "(5 :: u16) > used ?o" by simp
  have c: "contents ?o = [7, 8, 9]" by code_simp
  show ?thesis
    using h1 h2 read_p0_strict_all_or_nothing [OF h1 h2] by (simp add: c)
qed

section \<open>The two writes that do not overwrite\<close>

text \<open>
  C9: with \<open>used \<le> size\<close>, a request that fits the free space \<open>size - used\<close> gives the
  same count and the same state in \<^verbatim>\<open>ringbuf_write\<close> of \<^verbatim>\<open>ringbuf.c\<close> and in the write of
  the second variant without \<^verbatim>\<open>force\<close>.  A longer request is refused by the second
  variant (count 0, state unchanged) and truncated by \<^verbatim>\<open>ringbuf.c\<close>: it does what a
  request of exactly \<open>size - used\<close> bytes does, and returns \<open>size - used\<close>.
\<close>

theorem write_variants_agree_or_truncate:
  assumes "used obj \<le> size_rb obj"
  shows "(n \<le> size_rb obj - used obj \<longrightarrow>
            ringbuf_write obj pdata n = ringbuf_write_p0 obj pdata n False)
       \<and> (n > size_rb obj - used obj \<longrightarrow>
            ringbuf_write_p0 obj pdata n False = (obj, 0)
            \<and> ringbuf_write obj pdata n
                = ringbuf_write_p0 obj pdata (size_rb obj - used obj) False
            \<and> snd (ringbuf_write obj pdata n) = size_rb obj - used obj)"
proof (intro conjI impI)
  assume "n \<le> size_rb obj - used obj"
  then show "ringbuf_write obj pdata n = ringbuf_write_p0 obj pdata n False"
    by (rule write_eq_write_p0)
next
  assume gt: "n > size_rb obj - used obj"
  show "ringbuf_write_p0 obj pdata n False = (obj, 0)"
    using gt by (simp add: ringbuf_write_p0_def)
  show "ringbuf_write obj pdata n = ringbuf_write_p0 obj pdata (size_rb obj - used obj) False"
    using write_truncates(1) [OF assms gt] write_eq_write_p0 [of "size_rb obj - used obj" obj]
    by simp
  show "snd (ringbuf_write obj pdata n) = size_rb obj - used obj"
    using assms gt by (rule write_truncates(2))
qed

theorem write_variants_agree_or_truncate_witness:
  "used \<lparr>arr = [1, 2, 0, 0], size_rb = 4, used = 2, front = 0, rear = 2\<rparr>
     \<le> size_rb \<lparr>arr = [1, 2, 0, 0], size_rb = 4, used = 2, front = 0, rear = 2\<rparr>
   \<and> (2 :: u16) \<le> size_rb \<lparr>arr = [1, 2, 0, 0], size_rb = 4, used = 2, front = 0, rear = 2\<rparr>
                   - used \<lparr>arr = [1, 2, 0, 0], size_rb = 4, used = 2, front = 0, rear = 2\<rparr>
   \<and> ringbuf_write \<lparr>arr = [1, 2, 0, 0], size_rb = 4, used = 2, front = 0, rear = 2\<rparr> [5, 6] 2
       = ringbuf_write_p0 \<lparr>arr = [1, 2, 0, 0], size_rb = 4, used = 2, front = 0, rear = 2\<rparr>
           [5, 6] 2 False
   \<and> (3 :: u16) > size_rb \<lparr>arr = [1, 2, 0, 0], size_rb = 4, used = 2, front = 0, rear = 2\<rparr>
                   - used \<lparr>arr = [1, 2, 0, 0], size_rb = 4, used = 2, front = 0, rear = 2\<rparr>
   \<and> ringbuf_write_p0 \<lparr>arr = [1, 2, 0, 0], size_rb = 4, used = 2, front = 0, rear = 2\<rparr>
         [5, 6, 7] 3 False
       = (\<lparr>arr = [1, 2, 0, 0], size_rb = 4, used = 2, front = 0, rear = 2\<rparr>, 0)
   \<and> ringbuf_write \<lparr>arr = [1, 2, 0, 0], size_rb = 4, used = 2, front = 0, rear = 2\<rparr> [5, 6, 7] 3
       = (\<lparr>arr = [1, 2, 5, 6], size_rb = 4, used = 4, front = 0, rear = 0\<rparr>, 2)"
proof -
  let ?o = "\<lparr>arr = [1, 2, 0, 0], size_rb = 4, used = 2, front = 0, rear = 2\<rparr>"
  have h: "used ?o \<le> size_rb ?o" by simp
  have a: "(2 :: u16) \<le> size_rb ?o - used ?o" by simp
  have b: "(3 :: u16) > size_rb ?o - used ?o" by simp
  have e: "ringbuf_write_p0 ?o [5, 6, 7] 2 False
             = (\<lparr>arr = [1, 2, 5, 6], size_rb = 4, used = 4, front = 0, rear = 0\<rparr>, 2)"
    by code_simp
  show ?thesis
    using h a b e write_variants_agree_or_truncate [OF h, of 2 "[5, 6]"]
      write_variants_agree_or_truncate [OF h, of 3 "[5, 6, 7]"]
    by simp
qed

section \<open>Forced writes that evict the oldest bytes\<close>

text \<open>
  A forced write of \<open>n \<le> size\<close> bytes into a buffer with less than \<open>n\<close> free slots:
  \<open>front\<close> advances by the overlap \<open>n - (size - used)\<close>, \<open>used\<close> becomes \<open>size\<close> and the
  contents are the old ones without the evicted oldest bytes, followed by the new
  bytes.  This holds for the second variant at every capacity, and for
  \<^verbatim>\<open>ringbuf_writeForce\<close> of \<^verbatim>\<open>ringbuf.c\<close> at every capacity but \<open>65535\<close>.
\<close>

lemma forced_evicts:
  assumes wf: "well_formed obj" and inv: "ring_inv obj"
    and le: "length bs \<le> unat (size_rb obj)"
    and gt: "length bs > unat (size_rb obj) - unat (used obj)"
  shows "unat (front (forced obj bs))
           = (unat (front obj) + (length bs - (unat (size_rb obj) - unat (used obj))))
               mod unat (size_rb obj)"
    and "used (forced obj bs) = size_rb obj"
    and "contents (forced obj bs)
           = drop (length bs - (unat (size_rb obj) - unat (used obj))) (contents obj) @ bs"
proof -
  let ?sz = "unat (size_rb obj)" and ?u = "unat (used obj)"
  have u: "?u \<le> ?sz" using inv by (simp add: ring_inv_def word_le_nat_alt)
  have ov: "?u + length bs - ?sz = length bs - (?sz - ?u)" using u by simp
  show "unat (front (forced obj bs))
           = (unat (front obj) + (length bs - (?sz - ?u))) mod ?sz"
    using forced_fields(5) [OF wf, of bs] unfolding ov .
  have "min (?u + length bs) ?sz = ?sz" using gt u by simp
  then have "unat (used (forced obj bs)) = ?sz"
    using forced_fields(4) [OF wf, of bs] by simp
  then show "used (forced obj bs) = size_rb obj" by (simp add: word_unat_eq_iff)
  have c: "contents (forced obj bs) = lastn ?sz (contents obj @ bs)"
    using wf inv by (rule contents_forced)
  have lc: "length (contents obj) = ?u" by (simp add: contents_def)
  have "lastn ?sz (contents obj @ bs)
          = drop (length (contents obj) + length bs - ?sz) (contents obj) @ bs"
    using le by (rule lastn_append_evict)
  then show "contents (forced obj bs) = drop (length bs - (?sz - ?u)) (contents obj) @ bs"
    unfolding c lc ov .
qed

lemma force_write_evicts_oldest:
  assumes wf: "well_formed obj" and inv: "ring_inv obj" and len: "unat n \<le> length pdata"
    and le: "n \<le> size_rb obj" and gt: "n > size_rb obj - used obj"
  shows "ringbuf_write_p0 obj pdata n True = (forced obj (take (unat n) pdata), n)"
    and "size_rb obj \<noteq> 65535 \<Longrightarrow>
         ringbuf_writeForce obj pdata n = (forced obj (take (unat n) pdata), n)"
    and "unat (front (forced obj (take (unat n) pdata)))
           = (unat (front obj) + (unat n - (unat (size_rb obj) - unat (used obj))))
               mod unat (size_rb obj)"
    and "used (forced obj (take (unat n) pdata)) = size_rb obj"
    and "contents (forced obj (take (unat n) pdata))
           = drop (unat n - (unat (size_rb obj) - unat (used obj))) (contents obj)
               @ take (unat n) pdata"
proof -
  let ?bs = "take (unat n) pdata"
  have lbs: "length ?bs = unat n" using len by simp
  have u: "used obj \<le> size_rb obj" using inv by (simp add: ring_inv_def)
  have l1: "length ?bs \<le> unat (size_rb obj)"
    unfolding lbs using le by (simp add: word_le_nat_alt)
  have l2: "length ?bs > unat (size_rb obj) - unat (used obj)"
    unfolding lbs using gt by (simp add: word_less_nat_alt unat_sub [OF u])
  show "ringbuf_write_p0 obj pdata n True = (forced obj ?bs, n)"
    using le by (intro write_p0_forced [OF wf inv len]) simp
  show "ringbuf_writeForce obj pdata n = (forced obj ?bs, n)" if "size_rb obj \<noteq> 65535"
  proof -
    have "unat (size_rb obj) \<noteq> 65535"
      using that by (simp add: word_unat_eq_iff)
    then show ?thesis
      by (intro writeForce_forced [OF wf inv len]) simp
  qed
  show "unat (front (forced obj ?bs))
           = (unat (front obj) + (unat n - (unat (size_rb obj) - unat (used obj))))
               mod unat (size_rb obj)"
    using forced_evicts(1) [OF wf inv l1 l2] unfolding lbs .
  show "used (forced obj ?bs) = size_rb obj"
    using wf inv l1 l2 by (rule forced_evicts(2))
  show "contents (forced obj ?bs)
           = drop (unat n - (unat (size_rb obj) - unat (used obj))) (contents obj) @ ?bs"
    using forced_evicts(3) [OF wf inv l1 l2] unfolding lbs .
qed

text \<open>The example of the specification: capacity 4, contents \<open>[1, 2, 3, 4]\<close>, forced write of \<open>[5, 6]\<close>.\<close>

lemma force_write_example:
  "contents \<lparr>arr = [1, 2, 3, 4], size_rb = 4, used = 4, front = 0, rear = 0\<rparr> = [1, 2, 3, 4]
   \<and> ringbuf_writeForce \<lparr>arr = [1, 2, 3, 4], size_rb = 4, used = 4, front = 0, rear = 0\<rparr> [5, 6] 2
       = (\<lparr>arr = [5, 6, 3, 4], size_rb = 4, used = 4, front = 2, rear = 2\<rparr>, 2)
   \<and> ringbuf_write_p0 \<lparr>arr = [1, 2, 3, 4], size_rb = 4, used = 4, front = 0, rear = 0\<rparr>
         [5, 6] 2 True
       = (\<lparr>arr = [5, 6, 3, 4], size_rb = 4, used = 4, front = 2, rear = 2\<rparr>, 2)
   \<and> contents \<lparr>arr = [5, 6, 3, 4], size_rb = 4, used = 4, front = 2, rear = 2\<rparr> = [3, 4, 5, 6]"
  by code_simp

text \<open>
  At capacity \<open>65535\<close> the increment \<^verbatim>\<open>obj->used++\<close> of \<^verbatim>\<open>ringbuf_writeForce\<close> on a full
  buffer wraps \<open>used\<close> to \<open>0\<close>, the test \<^verbatim>\<open>used > size\<close> fails, and \<open>front\<close> stays.
\<close>

lemma writeForce_full_max_capacity:
  assumes "size_rb obj = 65535" and "used obj = 65535"
  shows "fst (ringbuf_writeForce obj [b] 1) =
           obj\<lparr>arr := (arr obj)[unat (rear obj) := b],
               rear := word_of_nat (Suc (unat (rear obj)) mod 65535),
               used := 0\<rparr>"
proof -
  have "writeForce_loop obj [b] 1 0 = writeForce_loop (force_step obj ([b] ! unat (0 :: u16))) [b] 1 (0 + 1)"
    by (rule writeForce_loop_unfold) simp
  also have "\<dots> = force_step obj b"
    by (simp add: writeForce_loop_done)
  also have "\<dots> = obj\<lparr>arr := (arr obj)[unat (rear obj) := b],
               rear := word_of_nat (Suc (unat (rear obj)) mod 65535),
               used := 0\<rparr>"
    using assms by (simp add: force_step_def Let_def)
  finally show ?thesis
    using assms by (simp add: ringbuf_writeForce_def)
qed

lemma writeForce_full_max_capacity_breaks_inv:
  assumes wf: "well_formed obj" and inv: "ring_inv obj"
    and sz: "size_rb obj = 65535" and u: "used obj = 65535"
  shows "\<not> ring_inv (fst (ringbuf_writeForce obj [b] 1))"
proof
  let ?f = "unat (front obj)"
  assume a: "ring_inv (fst (ringbuf_writeForce obj [b] 1))"
  have f: "?f < 65535" using wf sz by (simp add: well_formed_def word_less_nat_alt)
  have r: "unat (rear obj) = ?f"
    using inv f by (simp add: ring_inv_def sz u)
  have "Suc ?f mod 65535 \<le> unat (65535 :: u16)" by simp
  then have "unat (word_of_nat (Suc ?f mod 65535) :: u16) = Suc ?f mod 65535"
    by (rule le_unat_uoi)
  then have "Suc ?f mod 65535 = ?f"
    using a f by (simp add: writeForce_full_max_capacity [OF sz u] ring_inv_def sz r)
  then show False
    using f by (cases "Suc ?f = 65535") auto
qed

text \<open>
  C7 (the specification: a force write longer than the free space advances \<open>front\<close> by
  the overlap and saturates \<open>used\<close> at the capacity).  On the full buffer of capacity
  \<open>65535\<close>, \<^verbatim>\<open>ringbuf_writeForce\<close> of one byte leaves \<open>used = 0\<close> and \<open>front\<close> where it was,
  instead of \<open>used = 65535\<close> and \<open>front\<close> advanced by one.
\<close>

theorem writeForce_on_full_buffer_of_max_capacity:
  "used (fst (ringbuf_writeForce
            \<lparr>arr = replicate 65535 0, size_rb = 65535, used = 65535, front = 0, rear = 0\<rparr>
            [1] 1)) = 0
   \<and> front (fst (ringbuf_writeForce
            \<lparr>arr = replicate 65535 0, size_rb = 65535, used = 65535, front = 0, rear = 0\<rparr>
            [1] 1)) = 0"
  by (simp add: writeForce_full_max_capacity)

section \<open>Removing\<close>

lemma c_rem_nonneg: "0 \<le> a \<Longrightarrow> 0 < b \<Longrightarrow> c_rem a b = a mod b"
  by (cases "a = 0") (simp_all add: c_rem_def)

lemma c_rem_int: "0 < sz \<Longrightarrow> c_rem (int a) (int sz) = int (a mod sz)"
  by (simp add: c_rem_nonneg zmod_int)

lemma remove_front:
  assumes wf: "well_formed obj" and inv: "ring_inv obj"
    and pos: "0 < sint n" and lt: "sint n < uint (used obj)"
  shows "ringbuf_remove obj n =
           Some (obj\<lparr>front := word_of_nat ((unat (front obj) + nat (sint n))
                              mod unat (size_rb obj)),
                     used := word_of_nat (unat (used obj) - nat (sint n))\<rparr>,
                 word_of_nat (nat (sint n)))"
proof -
  let ?sz = "unat (size_rb obj)" and ?u = "unat (used obj)"
  let ?f = "unat (front obj)"
  obtain k where k: "sint n = int k"
    using pos by (metis nonneg_int_cases less_imp_le)
  have a: "uint (used obj) = int ?u" "uint (size_rb obj) = int ?sz" "uint (front obj) = int ?f"
    by (rule uint_nat)+
  have ku: "k < ?u" using lt unfolding a k by linarith
  have sz: "size_rb obj \<noteq> 0" using wf by (simp add: well_formed_def)
  then have szp: "0 < ?sz" by (simp add: unat_gt_0)
  have n0: "n \<noteq> 0" using pos by auto
  have u0: "used obj \<noteq> 0" using ku by (auto simp: unat_gt_0 [symmetric])
  have mn: "sint n \<noteq> - (2 ^ 31)" using pos by simp
  have nabs: "\<not> \<bar>sint n\<bar> \<ge> uint (used obj)" using pos lt by simp
  have fr: "c_rem (uint (front obj) + sint n) (uint (size_rb obj)) = int ((?f + k) mod ?sz)"
    unfolding a k of_nat_add [symmetric] by (rule c_rem_int [OF szp])
  have us: "uint (used obj) - sint n = int (?u - k)"
    unfolding a k using ku by simp
  have "ringbuf_remove obj n =
          Some (obj\<lparr>front := word_of_int (c_rem (uint (front obj) + sint n) (uint (size_rb obj))),
                    used := word_of_int (uint (used obj) - sint n)\<rparr>,
                word_of_int (sint n))"
    using n0 u0 mn nabs sz pos by (simp add: ringbuf_remove_def)
  then show ?thesis
    unfolding fr us by (simp add: k)
qed

lemma remove_rear:
  assumes wf: "well_formed obj" and inv: "ring_inv obj"
    and neg: "sint n < 0" and gt: "- uint (used obj) < sint n"
  shows "ringbuf_remove obj n =
           Some (obj\<lparr>rear := word_of_nat ((unat (rear obj) + unat (size_rb obj) - nat (- sint n))
                              mod unat (size_rb obj)),
                     used := word_of_nat (unat (used obj) - nat (- sint n))\<rparr>,
                 word_of_nat (nat (- sint n)))"
proof -
  let ?sz = "unat (size_rb obj)" and ?u = "unat (used obj)"
  let ?r = "unat (rear obj)"
  obtain k where k: "sint n = - int k"
    using neg by (metis nonpos_int_cases less_imp_le)
  have a: "uint (used obj) = int ?u" "uint (size_rb obj) = int ?sz" "uint (rear obj) = int ?r"
    by (rule uint_nat)+
  have ku: "k < ?u" using gt unfolding a k by linarith
  have u: "?u \<le> ?sz" using inv by (simp add: ring_inv_def word_le_nat_alt)
  have sz: "size_rb obj \<noteq> 0" using wf by (simp add: well_formed_def)
  then have szp: "0 < ?sz" by (simp add: unat_gt_0)
  have n0: "n \<noteq> 0" using neg by auto
  have u0: "used obj \<noteq> 0" using ku by (auto simp: unat_gt_0 [symmetric])
  have mn: "sint n \<noteq> - (2 ^ 31)"
  proof
    assume "sint n = - (2 ^ 31)"
    then have "k = 2 ^ 31" unfolding k by simp
    moreover have "?u < 65536" using unsigned_less [of "used obj", where ?'a = nat] by simp
    ultimately show False using ku by simp
  qed
  have nabs: "\<not> \<bar>sint n\<bar> \<ge> uint (used obj)" using neg gt by simp
  have npos: "\<not> sint n > 0" using neg by simp
  have e: "uint (rear obj) + uint (size_rb obj) + sint n = int (?r + ?sz - k)"
    unfolding a k using ku u by simp
  have rr: "c_rem (uint (rear obj) + uint (size_rb obj) + sint n) (uint (size_rb obj))
                  = int ((?r + ?sz - k) mod ?sz)"
    unfolding e unfolding a(2) by (rule c_rem_int [OF szp])
  have us: "uint (used obj) + sint n = int (?u - k)"
    unfolding a k using ku by simp
  have ret: "- sint n = int k" using k by simp
  have "ringbuf_remove obj n =
          Some (obj\<lparr>rear := word_of_int
                          (c_rem (uint (rear obj) + uint (size_rb obj) + sint n)
                             (uint (size_rb obj))),
                    used := word_of_int (uint (used obj) + sint n)\<rparr>,
                word_of_int (- sint n))"
    using n0 u0 mn nabs sz npos by (simp add: ringbuf_remove_def)
  then show ?thesis
    unfolding rr us ret by (simp add: k)
qed

lemma contents_advance_front:
  assumes "size_rb obj \<noteq> 0" and "k \<le> unat (used obj)"
  shows "contents (obj\<lparr>front := word_of_nat ((unat (front obj) + k) mod unat (size_rb obj)),
                       used := word_of_nat (unat (used obj) - k)\<rparr>)
           = drop k (contents obj)"
proof -
  let ?sz = "unat (size_rb obj)" and ?u = "unat (used obj)" and ?f = "unat (front obj)"
  have u': "unat (word_of_nat (?u - k) :: u16) = ?u - k"
    by (rule le_unat_uoi [of _ "used obj"]) simp
  have f': "unat (word_of_nat ((?f + k) mod ?sz) :: u16) = (?f + k) mod ?sz"
    using assms(1) by (rule unat_of_nat_mod_u16)
  have "drop k (contents obj) = map (\<lambda>i. arr obj ! ((?f + i) mod ?sz)) [k ..< ?u]"
    by (simp add: contents_def drop_map)
  also have "[k ..< ?u] = map (\<lambda>i. i + k) [0 ..< ?u - k]"
    using assms(2) by (simp add: map_add_upt)
  also have "map (\<lambda>i. arr obj ! ((?f + i) mod ?sz)) (map (\<lambda>i. i + k) [0 ..< ?u - k])
               = map (\<lambda>i. arr obj ! (((?f + k) mod ?sz + i) mod ?sz)) [0 ..< ?u - k]"
    by (simp add: mod_add_left_eq mod_add_right_eq ac_simps)
  finally show ?thesis
    by (simp add: contents_def u' f')
qed

lemma contents_retract_rear:
  "contents (obj\<lparr>rear := r, used := word_of_nat (unat (used obj) - k)\<rparr>)
     = take (unat (used obj) - k) (contents obj)"
proof -
  have u': "unat (word_of_nat (unat (used obj) - k) :: u16) = unat (used obj) - k"
    by (rule le_unat_uoi [of _ "used obj"]) simp
  show ?thesis
    by (simp add: contents_def u' take_map)
qed

text \<open>
  C8 as stated (for every buffer, \<open>abs(length) \<ge> used\<close> resets all cursors to zero)
  fails on an empty buffer whose cursors are not zero: the guard \<^verbatim>\<open>obj->used == 0\<close>
  returns 0 before anything is reset.
\<close>

theorem remove_on_empty_keeps_stale_cursors:
  "uint (used \<lparr>arr = [1, 2, 3, 0, 0, 0, 0, 0], size_rb = 8, used = 0, front = 3, rear = 3\<rparr>)
     \<le> \<bar>sint (5 :: c_int)\<bar>
   \<and> ringbuf_remove
         \<lparr>arr = [1, 2, 3, 0, 0, 0, 0, 0], size_rb = 8, used = 0, front = 3, rear = 3\<rparr> 5
       = Some (\<lparr>arr = [1, 2, 3, 0, 0, 0, 0, 0], size_rb = 8, used = 0, front = 3, rear = 3\<rparr>, 0)
   \<and> front \<lparr>arr = [1, 2, 3, 0, 0, 0, 0, 0], size_rb = 8, used = 0, front = 3, rear = 3\<rparr> \<noteq> 0"
  by (simp add: ringbuf_remove_def)

text \<open>
  C8, amended.  On an empty buffer, or with \<open>length = 0\<close>, \<^verbatim>\<open>ringbuf_remove\<close> returns 0
  and leaves the buffer as it is.  On a buffer that is not empty, with a \<open>length\<close>
  other than 0 and the least \<^verbatim>\<open>int\<close>: \<open>abs(length) \<ge> used\<close> resets \<open>front\<close>, \<open>rear\<close> and
  \<open>used\<close> to zero and returns the previous \<open>used\<close>; \<open>0 < length < used\<close> advances
  \<open>front\<close> by \<open>length\<close>, drops the \<open>length\<close> oldest bytes and returns \<open>length\<close>;
  \<open>- used < length < 0\<close> moves \<open>rear\<close> back by \<open>- length\<close>, drops the \<open>- length\<close> newest
  bytes and returns \<open>- length\<close>.
\<close>

theorem remove_semantics:
  assumes "well_formed obj" and "ring_inv obj" and "sint n \<noteq> - (2 ^ 31)"
  shows "(n = 0 \<or> used obj = 0 \<longrightarrow> ringbuf_remove obj n = Some (obj, 0))
       \<and> (n \<noteq> 0 \<and> used obj \<noteq> 0 \<and> uint (used obj) \<le> \<bar>sint n\<bar> \<longrightarrow>
            ringbuf_remove obj n = Some (obj\<lparr>front := 0, rear := 0, used := 0\<rparr>, used obj))
       \<and> (0 < sint n \<and> sint n < uint (used obj) \<longrightarrow>
            (\<exists>obj' r. ringbuf_remove obj n = Some (obj', r) \<and> uint r = sint n
               \<and> unat (front obj') = (unat (front obj) + nat (sint n)) mod unat (size_rb obj)
               \<and> rear obj' = rear obj \<and> uint (used obj') = uint (used obj) - sint n
               \<and> contents obj' = drop (nat (sint n)) (contents obj)))
       \<and> (- uint (used obj) < sint n \<and> sint n < 0 \<longrightarrow>
            (\<exists>obj' r. ringbuf_remove obj n = Some (obj', r) \<and> uint r = - sint n
               \<and> front obj' = front obj
               \<and> unat (rear obj')
                   = (unat (rear obj) + unat (size_rb obj) - nat (- sint n)) mod unat (size_rb obj)
               \<and> uint (used obj') = uint (used obj) + sint n
               \<and> contents obj' = take (unat (used obj) - nat (- sint n)) (contents obj)))"
proof (intro conjI impI)
  assume "n = 0 \<or> used obj = 0"
  then show "ringbuf_remove obj n = Some (obj, 0)"
    by (auto simp: ringbuf_remove_def)
next
  assume "n \<noteq> 0 \<and> used obj \<noteq> 0 \<and> uint (used obj) \<le> \<bar>sint n\<bar>"
  then show "ringbuf_remove obj n = Some (obj\<lparr>front := 0, rear := 0, used := 0\<rparr>, used obj)"
    using assms(3) by (simp add: ringbuf_remove_def)
next
  assume h: "0 < sint n \<and> sint n < uint (used obj)"
  let ?k = "nat (sint n)" and ?sz = "unat (size_rb obj)" and ?u = "unat (used obj)"
  let ?obj' = "obj\<lparr>front := word_of_nat ((unat (front obj) + ?k) mod ?sz),
                    used := word_of_nat (?u - ?k)\<rparr>"
  have sz: "size_rb obj \<noteq> 0" using assms(1) by (simp add: well_formed_def)
  have a: "uint (used obj) = int ?u" by (rule uint_nat)
  have ku: "?k < ?u" using h unfolding a by linarith
  have r: "ringbuf_remove obj n = Some (?obj', word_of_nat ?k)"
    using assms(1,2) h by (intro remove_front) simp_all
  have uk: "unat (word_of_nat ?k :: u16) = ?k"
    using ku by (intro le_unat_uoi [of _ "used obj"]) simp
  have 1: "uint (word_of_nat ?k :: u16) = sint n"
    using h unfolding uint_nat uk by simp
  have 2: "unat (front ?obj') = (unat (front obj) + ?k) mod ?sz"
    using sz by (simp add: unat_of_nat_mod_u16)
  have uu: "unat (word_of_nat (?u - ?k) :: u16) = ?u - ?k"
    by (intro le_unat_uoi [of _ "used obj"]) simp
  have 3: "uint (used ?obj') = uint (used obj) - sint n"
  proof -
    have "used ?obj' = word_of_nat (?u - ?k)" by simp
    then have "unat (used ?obj') = ?u - ?k" using uu by (simp only:)
    then have "uint (used ?obj') = int (?u - ?k)" by (simp only: uint_nat)
    also have "\<dots> = int ?u - sint n" using h ku by linarith
    finally show ?thesis unfolding a .
  qed
  have 4: "contents ?obj' = drop ?k (contents obj)"
    using sz ku by (intro contents_advance_front) simp_all
  show "\<exists>obj' r. ringbuf_remove obj n = Some (obj', r) \<and> uint r = sint n
               \<and> unat (front obj') = (unat (front obj) + nat (sint n)) mod unat (size_rb obj)
               \<and> rear obj' = rear obj \<and> uint (used obj') = uint (used obj) - sint n
               \<and> contents obj' = drop (nat (sint n)) (contents obj)"
    using r 1 2 3 4 by (intro exI [of _ ?obj'] exI [of _ "word_of_nat ?k"]) simp
next
  assume h: "- uint (used obj) < sint n \<and> sint n < 0"
  let ?k = "nat (- sint n)" and ?sz = "unat (size_rb obj)" and ?u = "unat (used obj)"
  let ?obj' = "obj\<lparr>rear := word_of_nat ((unat (rear obj) + ?sz - ?k) mod ?sz),
                    used := word_of_nat (?u - ?k)\<rparr>"
  have sz: "size_rb obj \<noteq> 0" using assms(1) by (simp add: well_formed_def)
  have a: "uint (used obj) = int ?u" by (rule uint_nat)
  have ku: "?k < ?u" using h unfolding a by linarith
  have r: "ringbuf_remove obj n = Some (?obj', word_of_nat ?k)"
    using assms(1,2) h by (intro remove_rear) simp_all
  have uk: "unat (word_of_nat ?k :: u16) = ?k"
    using ku by (intro le_unat_uoi [of _ "used obj"]) simp
  have 1: "uint (word_of_nat ?k :: u16) = - sint n"
    using h unfolding uint_nat uk by simp
  have 2: "unat (rear ?obj') = (unat (rear obj) + ?sz - ?k) mod ?sz"
    using sz by (simp add: unat_of_nat_mod_u16)
  have uu: "unat (word_of_nat (?u - ?k) :: u16) = ?u - ?k"
    by (intro le_unat_uoi [of _ "used obj"]) simp
  have 3: "uint (used ?obj') = uint (used obj) + sint n"
  proof -
    have "used ?obj' = word_of_nat (?u - ?k)" by simp
    then have "unat (used ?obj') = ?u - ?k" using uu by (simp only:)
    then have "uint (used ?obj') = int (?u - ?k)" by (simp only: uint_nat)
    also have "\<dots> = int ?u + sint n" using h ku by linarith
    finally show ?thesis unfolding a .
  qed
  have 4: "contents ?obj' = take (?u - ?k) (contents obj)"
    by (rule contents_retract_rear)
  show "\<exists>obj' r. ringbuf_remove obj n = Some (obj', r) \<and> uint r = - sint n
               \<and> front obj' = front obj
               \<and> unat (rear obj')
                   = (unat (rear obj) + unat (size_rb obj) - nat (- sint n)) mod unat (size_rb obj)
               \<and> uint (used obj') = uint (used obj) + sint n
               \<and> contents obj' = take (unat (used obj) - nat (- sint n)) (contents obj)"
    using r 1 2 3 4 by (intro exI [of _ ?obj'] exI [of _ "word_of_nat ?k"]) simp
qed

theorem remove_semantics_witness:
  "well_formed \<lparr>arr = [0, 97, 98, 99, 100], size_rb = 5, used = 4, front = 1, rear = 0\<rparr>
   \<and> ring_inv \<lparr>arr = [0, 97, 98, 99, 100], size_rb = 5, used = 4, front = 1, rear = 0\<rparr>
   \<and> sint (- 2 :: c_int) \<noteq> - (2 ^ 31)
   \<and> - uint (used \<lparr>arr = [0, 97, 98, 99, 100], size_rb = 5, used = 4, front = 1, rear = 0\<rparr>)
        < sint (- 2 :: c_int)
   \<and> sint (- 2 :: c_int) < 0
   \<and> contents \<lparr>arr = [0, 97, 98, 99, 100], size_rb = 5, used = 4, front = 1, rear = 0\<rparr>
       = [97, 98, 99, 100]
   \<and> ringbuf_remove \<lparr>arr = [0, 97, 98, 99, 100], size_rb = 5, used = 4, front = 1, rear = 0\<rparr> (- 2)
       = Some (\<lparr>arr = [0, 97, 98, 99, 100], size_rb = 5, used = 2, front = 1, rear = 3\<rparr>, 2)
   \<and> contents \<lparr>arr = [0, 97, 98, 99, 100], size_rb = 5, used = 2, front = 1, rear = 3\<rparr>
       = [97, 98]"
proof -
  let ?o = "\<lparr>arr = [0, 97, 98, 99, 100], size_rb = 5, used = 4, front = 1, rear = 0\<rparr>"
  have h1: "well_formed ?o" by (simp add: well_formed_def)
  have h2: "ring_inv ?o" by (simp add: ring_inv_def)
  have h3: "sint (- 2 :: c_int) \<noteq> - (2 ^ 31)" by simp
  have h4: "- uint (used ?o) < sint (- 2 :: c_int)" "sint (- 2 :: c_int) < 0" by simp_all
  have c: "contents ?o = [97, 98, 99, 100]" by code_simp
  have r: "ringbuf_remove ?o (- 2)
             = Some (\<lparr>arr = [0, 97, 98, 99, 100], size_rb = 5, used = 2, front = 1, rear = 3\<rparr>, 2)"
    by code_simp
  have "contents \<lparr>arr = [0, 97, 98, 99, 100], size_rb = 5, used = 2, front = 1, rear = 3\<rparr>
          = take (unat (used ?o) - nat (- sint (- 2 :: c_int))) (contents ?o)"
    using remove_semantics [OF h1 h2 h3] h4 r by auto
  then show ?thesis
    using h1 h2 h3 h4 c r by simp
qed

section \<open>The ring invariant\<close>

text \<open>
  Every admissible operation keeps a well-formed buffer well formed and keeps the ring
  invariant, and so does every sequence of them.
\<close>

text \<open>Cursor fields are untouched by the loops that only store into the array.\<close>

lemma modify_loop_cursors:
  "size_rb (modify_loop obj pdata n s i) = size_rb obj
   \<and> used (modify_loop obj pdata n s i) = used obj
   \<and> front (modify_loop obj pdata n s i) = front obj
   \<and> rear (modify_loop obj pdata n s i) = rear obj
   \<and> length (arr (modify_loop obj pdata n s i)) = length (arr obj)"
proof (induction obj pdata n s i rule: modify_loop.induct)
  case (1 obj pdata n s i)
  show ?case
  proof (cases "i < n")
    case True
    then show ?thesis
      using "1.IH" [OF True] by (subst (1 2 3 4 5) modify_loop.simps) simp
  next
    case False
    then show ?thesis by (subst (1 2 3 4 5) modify_loop.simps) simp
  qed
qed

lemma memset_loop_cursors:
  "size_rb (memset_loop obj v n s i) = size_rb obj
   \<and> used (memset_loop obj v n s i) = used obj
   \<and> front (memset_loop obj v n s i) = front obj
   \<and> rear (memset_loop obj v n s i) = rear obj
   \<and> length (arr (memset_loop obj v n s i)) = length (arr obj)"
proof (induction obj v n s i rule: memset_loop.induct)
  case (1 obj v n s i)
  show ?case
  proof (cases "i < n")
    case True
    then show ?thesis
      using "1.IH" [OF True] by (subst (1 2 3 4 5) memset_loop.simps) simp
  next
    case False
    then show ?thesis by (subst (1 2 3 4 5) memset_loop.simps) simp
  qed
qed

lemma read_p0_nonstrict: "ringbuf_read_p0 obj n False = ringbuf_read obj n"
  by (auto simp: ringbuf_read_p0_def ringbuf_read_def Let_def)

lemma read_p0_strict:
  "ringbuf_read_p0 obj n True = (if n > used obj then Some (obj, [], 0) else ringbuf_read obj n)"
  by (auto simp: ringbuf_read_p0_def ringbuf_read_def Let_def)

lemma read_more_than_used:
  "n > used obj \<Longrightarrow> ringbuf_read obj n = ringbuf_read obj (used obj)"
  by (auto simp: ringbuf_read_def Let_def)

lemma read_closed:
  assumes wf: "well_formed obj" and inv: "ring_inv obj"
  shows "ringbuf_read obj n =
           Some (obj\<lparr>front := word_of_nat ((unat (front obj) + unat (min n (used obj)))
                              mod unat (size_rb obj)),
                     used := used obj - min n (used obj)\<rparr>,
                 take (unat (min n (used obj))) (contents obj), min n (used obj))"
proof (cases "n \<le> used obj")
  case True
  then have m: "min n (used obj) = n" by simp
  show ?thesis
    unfolding m using wf inv True by (rule read_contents)
next
  case False
  then have gt: "n > used obj" by simp
  then have m: "min n (used obj) = used obj" by simp
  have "ringbuf_read obj n = ringbuf_read obj (used obj)"
    using gt by (rule read_more_than_used)
  also have "\<dots> = Some (obj\<lparr>front := word_of_nat ((unat (front obj) + unat (used obj))
                              mod unat (size_rb obj)),
                     used := used obj - used obj\<rparr>,
                 take (unat (used obj)) (contents obj), used obj)"
    by (rule read_contents [OF wf inv]) simp
  finally show ?thesis
    unfolding m .
qed

lemma advance_front_valid:
  assumes wf: "well_formed obj" and inv: "ring_inv obj" and k: "k \<le> used obj"
  shows "well_formed (obj\<lparr>front := word_of_nat ((unat (front obj) + unat k)
                                 mod unat (size_rb obj)),
                          used := used obj - k\<rparr>)"
    and "ring_inv (obj\<lparr>front := word_of_nat ((unat (front obj) + unat k)
                                 mod unat (size_rb obj)),
                        used := used obj - k\<rparr>)"
proof -
  let ?sz = "unat (size_rb obj)" and ?f = "unat (front obj)" and ?u = "unat (used obj)"
  have sz: "size_rb obj \<noteq> 0" using wf by (simp add: well_formed_def)
  then have szp: "0 < ?sz" by (simp add: unat_gt_0)
  have f': "unat (word_of_nat ((?f + unat k) mod ?sz) :: u16) = (?f + unat k) mod ?sz"
    using sz by (rule unat_of_nat_mod_u16)
  have u': "unat (used obj - k) = ?u - unat k" using k by (rule unat_sub)
  have ku: "unat k \<le> ?u" using k by (simp add: word_le_nat_alt)
  have u: "?u \<le> ?sz" using inv by (simp add: ring_inv_def word_le_nat_alt)
  show "well_formed (obj\<lparr>front := word_of_nat ((?f + unat k) mod ?sz), used := used obj - k\<rparr>)"
    using wf szp by (simp add: well_formed_def word_less_nat_alt f')
  have "((?f + unat k) mod ?sz + (?u - unat k)) mod ?sz
          = ((?f + unat k) + (?u - unat k)) mod ?sz"
    by (rule mod_add_left_eq)
  also have "(?f + unat k) + (?u - unat k) = ?f + ?u" using ku by simp
  finally have "((?f + unat k) mod ?sz + (?u - unat k)) mod ?sz = (?f + ?u) mod ?sz" .
  then show "ring_inv (obj\<lparr>front := word_of_nat ((?f + unat k) mod ?sz), used := used obj - k\<rparr>)"
    using inv ku u by (simp add: ring_inv_def word_le_nat_alt f' u')
qed

lemma read_preserves:
  assumes "well_formed obj" and "ring_inv obj"
  shows "\<exists>obj' out r. ringbuf_read obj n = Some (obj', out, r)
           \<and> well_formed obj' \<and> ring_inv obj' \<and> size_rb obj' = size_rb obj"
  using read_closed [OF assms, of n] advance_front_valid [OF assms, of "min n (used obj)"]
  by simp

lemma read_p0_preserves:
  assumes "well_formed obj" and "ring_inv obj"
  shows "\<exists>obj' out r. ringbuf_read_p0 obj n strict = Some (obj', out, r)
           \<and> well_formed obj' \<and> ring_inv obj' \<and> size_rb obj' = size_rb obj"
proof (cases "strict \<and> n > used obj")
  case True
  then show ?thesis using assms by (simp add: read_p0_strict)
next
  case False
  then have "ringbuf_read_p0 obj n strict = ringbuf_read obj n"
    by (cases strict) (simp_all add: read_p0_strict read_p0_nonstrict)
  then show ?thesis using read_preserves [OF assms, of n] by simp
qed

lemma write_preserves:
  assumes wf: "well_formed obj" and inv: "ring_inv obj" and len: "unat n \<le> length pdata"
  shows "well_formed (fst (ringbuf_write obj pdata n))"
    and "ring_inv (fst (ringbuf_write obj pdata n))"
    and "size_rb (fst (ringbuf_write obj pdata n)) = size_rb obj"
proof -
  let ?sp = "size_rb obj - used obj"
  have u: "used obj \<le> size_rb obj" using inv by (simp add: ring_inv_def)
  have "\<exists>m. unat m \<le> length pdata \<and> m \<le> ?sp \<and> ringbuf_write obj pdata n = ringbuf_write obj pdata m"
  proof (cases "n \<le> ?sp")
    case True
    then show ?thesis using len by blast
  next
    case False
    then have gt: "n > ?sp" by simp
    then have "unat ?sp \<le> length pdata" using len by (simp add: word_less_nat_alt)
    then show ?thesis using write_truncates(1) [OF u gt, of pdata] by blast
  qed
  then obtain m where m: "unat m \<le> length pdata" "m \<le> ?sp"
    "ringbuf_write obj pdata n = ringbuf_write obj pdata m" by blast
  have w: "ringbuf_write obj pdata n = (forced obj (take (unat m) pdata), m)"
    using write_forced [OF wf inv m(1,2)] m(3) by simp
  show "well_formed (fst (ringbuf_write obj pdata n))"
    "ring_inv (fst (ringbuf_write obj pdata n))"
    "size_rb (fst (ringbuf_write obj pdata n)) = size_rb obj"
    using forced_well_formed [OF wf inv] forced_fields(1) [OF wf] by (simp_all add: w)
qed

lemma write_p0_preserves:
  assumes wf: "well_formed obj" and inv: "ring_inv obj" and len: "unat n \<le> length pdata"
  shows "well_formed (fst (ringbuf_write_p0 obj pdata n force))"
    and "ring_inv (fst (ringbuf_write_p0 obj pdata n force))"
    and "size_rb (fst (ringbuf_write_p0 obj pdata n force)) = size_rb obj"
proof -
  let ?sp = "if force then size_rb obj else size_rb obj - used obj"
  have "ringbuf_write_p0 obj pdata n force = (obj, 0)
        \<or> ringbuf_write_p0 obj pdata n force = (forced obj (take (unat n) pdata), n)"
  proof (cases "n > ?sp")
    case True
    then show ?thesis by (auto simp: ringbuf_write_p0_def Let_def)
  next
    case False
    then have "if force then n \<le> size_rb obj else n \<le> size_rb obj - used obj"
      by (auto split: if_splits)
    then show ?thesis using write_p0_forced [OF wf inv len] by simp
  qed
  then show "well_formed (fst (ringbuf_write_p0 obj pdata n force))"
    "ring_inv (fst (ringbuf_write_p0 obj pdata n force))"
    "size_rb (fst (ringbuf_write_p0 obj pdata n force)) = size_rb obj"
    using forced_well_formed [OF wf inv] forced_fields(1) [OF wf] wf inv by auto
qed

lemma writeForce_preserves:
  assumes wf: "well_formed obj" and inv: "ring_inv obj" and len: "unat n \<le> length pdata"
    and sz: "size_rb obj \<noteq> 65535"
  shows "well_formed (fst (ringbuf_writeForce obj pdata n))"
    and "ring_inv (fst (ringbuf_writeForce obj pdata n))"
    and "size_rb (fst (ringbuf_writeForce obj pdata n)) = size_rb obj"
proof -
  have "unat (size_rb obj) \<noteq> 65535" using sz by (simp add: word_unat_eq_iff)
  then have w: "ringbuf_writeForce obj pdata n = (forced obj (take (unat n) pdata), n)"
    by (intro writeForce_forced [OF wf inv len]) simp
  show "well_formed (fst (ringbuf_writeForce obj pdata n))"
    "ring_inv (fst (ringbuf_writeForce obj pdata n))"
    "size_rb (fst (ringbuf_writeForce obj pdata n)) = size_rb obj"
    using forced_well_formed [OF wf inv] forced_fields(1) [OF wf] by (simp_all add: w)
qed

lemma modify_preserves:
  assumes "well_formed obj" and "ring_inv obj"
  shows "well_formed (fst (ringbuf_modify obj index n pdata))"
    and "ring_inv (fst (ringbuf_modify obj index n pdata))"
    and "size_rb (fst (ringbuf_modify obj index n pdata)) = size_rb obj"
  using assms modify_loop_cursors
  by (simp_all add: ringbuf_modify_def well_formed_def ring_inv_def)

lemma memset_preserves:
  assumes "well_formed obj" and "ring_inv obj"
  shows "well_formed (fst (ringbuf_memset obj index v n))"
    and "ring_inv (fst (ringbuf_memset obj index v n))"
    and "size_rb (fst (ringbuf_memset obj index v n)) = size_rb obj"
  using assms memset_loop_cursors
  by (simp_all add: ringbuf_memset_def well_formed_def ring_inv_def Let_def)

lemma remove_preserves:
  assumes wf: "well_formed obj" and inv: "ring_inv obj" and mn: "sint n \<noteq> - (2 ^ 31)"
  shows "\<exists>obj' r. ringbuf_remove obj n = Some (obj', r)
           \<and> well_formed obj' \<and> ring_inv obj' \<and> size_rb obj' = size_rb obj"
proof -
  let ?sz = "unat (size_rb obj)" and ?u = "unat (used obj)" and ?f = "unat (front obj)"
  let ?r = "unat (rear obj)"
  have sz: "size_rb obj \<noteq> 0" using wf by (simp add: well_formed_def)
  then have szp: "0 < ?sz" by (simp add: unat_gt_0)
  have u: "?u \<le> ?sz" using inv by (simp add: ring_inv_def word_le_nat_alt)
  have r: "?r = (?f + ?u) mod ?sz" using inv by (simp add: ring_inv_def)
  have a: "uint (used obj) = int ?u" by (rule uint_nat)
  consider (idle) "n = 0 \<or> used obj = 0"
    | (all) "n \<noteq> 0" "used obj \<noteq> 0" "uint (used obj) \<le> \<bar>sint n\<bar>"
    | (fifo) "0 < sint n" "sint n < uint (used obj)"
    | (lifo) "sint n < 0" "- uint (used obj) < sint n"
  proof -
    have "sint n = 0 \<longrightarrow> n = 0" by (simp add: signed_eq_0_iff)
    then have "(n = 0 \<or> used obj = 0)
        \<or> (n \<noteq> 0 \<and> used obj \<noteq> 0 \<and> uint (used obj) \<le> \<bar>sint n\<bar>)
        \<or> (0 < sint n \<and> sint n < uint (used obj))
        \<or> (sint n < 0 \<and> - uint (used obj) < sint n)"
      by arith
    then show ?thesis using that by blast
  qed
  then show ?thesis
  proof cases
    case idle
    then show ?thesis using wf inv by (auto simp: ringbuf_remove_def)
  next
    case all
    have "ringbuf_remove obj n = Some (obj\<lparr>front := 0, rear := 0, used := 0\<rparr>, used obj)"
      using all mn by (simp add: ringbuf_remove_def)
    moreover have "well_formed (obj\<lparr>front := 0, rear := 0, used := 0\<rparr>)"
      using wf sz by (simp add: well_formed_def word_greater_zero_iff)
    moreover have "ring_inv (obj\<lparr>front := 0, rear := 0, used := 0\<rparr>)"
      by (simp add: ring_inv_def)
    ultimately show ?thesis by simp
  next
    case fifo
    let ?k = "nat (sint n)"
    let ?obj' = "obj\<lparr>front := word_of_nat ((?f + ?k) mod ?sz), used := word_of_nat (?u - ?k)\<rparr>"
    have ku: "?k < ?u" using fifo unfolding a by linarith
    have f': "unat (word_of_nat ((?f + ?k) mod ?sz) :: u16) = (?f + ?k) mod ?sz"
      using sz by (rule unat_of_nat_mod_u16)
    have u': "unat (word_of_nat (?u - ?k) :: u16) = ?u - ?k"
      by (rule le_unat_uoi [of _ "used obj"]) simp
    have "((?f + ?k) mod ?sz + (?u - ?k)) mod ?sz = ((?f + ?k) + (?u - ?k)) mod ?sz"
      by (rule mod_add_left_eq)
    also have "(?f + ?k) + (?u - ?k) = ?f + ?u" using ku by simp
    finally have m: "((?f + ?k) mod ?sz + (?u - ?k)) mod ?sz = (?f + ?u) mod ?sz" .
    have "ringbuf_remove obj n = Some (?obj', word_of_nat ?k)"
      using wf inv fifo by (rule remove_front)
    moreover have "well_formed ?obj'"
      using wf szp by (simp add: well_formed_def word_less_nat_alt f')
    moreover have "ring_inv ?obj'"
      using r m u by (simp add: ring_inv_def word_le_nat_alt f' u')
    ultimately show ?thesis by simp
  next
    case lifo
    let ?k = "nat (- sint n)"
    let ?obj' = "obj\<lparr>rear := word_of_nat ((?r + ?sz - ?k) mod ?sz), used := word_of_nat (?u - ?k)\<rparr>"
    have ku: "?k < ?u" using lifo unfolding a by linarith
    have r': "unat (word_of_nat ((?r + ?sz - ?k) mod ?sz) :: u16) = (?r + ?sz - ?k) mod ?sz"
      using sz by (rule unat_of_nat_mod_u16)
    have u': "unat (word_of_nat (?u - ?k) :: u16) = ?u - ?k"
      by (rule le_unat_uoi [of _ "used obj"]) simp
    have "?r + ?sz - ?k = ?r + (?sz - ?k)" using ku u by simp
    then have "(?r + ?sz - ?k) mod ?sz = ((?f + ?u) mod ?sz + (?sz - ?k)) mod ?sz"
      by (simp only: r)
    also have "\<dots> = ((?f + ?u) + (?sz - ?k)) mod ?sz" by (rule mod_add_left_eq)
    also have "(?f + ?u) + (?sz - ?k) = (?f + (?u - ?k)) + ?sz" using ku u by simp
    also have "((?f + (?u - ?k)) + ?sz) mod ?sz = (?f + (?u - ?k)) mod ?sz" by simp
    finally have m: "(?r + ?sz - ?k) mod ?sz = (?f + (?u - ?k)) mod ?sz" .
    have "ringbuf_remove obj n = Some (?obj', word_of_nat ?k)"
      using wf inv lifo by (rule remove_rear)
    moreover have "well_formed ?obj'"
      using wf szp by (simp add: well_formed_def word_less_nat_alt r')
    moreover have "ring_inv ?obj'"
    proof -
      have rr: "unat (word_of_nat ((?r + ?sz - ?k) mod ?sz) :: u16) = (?f + (?u - ?k)) mod ?sz"
        using r' m by (simp only:)
      have "?u - ?k \<le> ?sz" using u by simp
      then show ?thesis
        by (simp add: ring_inv_def word_le_nat_alt rr u')
    qed
    ultimately show ?thesis by simp
  qed
qed

lemma updatePointer_preserves:
  assumes wf: "well_formed obj" and inv: "ring_inv obj"
  shows "\<exists>obj' ok. ringbuf_updatePointer obj f0 r0 u0 = Some (obj', ok)
           \<and> well_formed obj' \<and> ring_inv obj' \<and> size_rb obj' = size_rb obj"
proof -
  let ?S = "size_rb obj"
  let ?sz = "unat ?S"
  let ?f = "f0 mod ?S" and ?r = "r0 mod ?S" and ?u = "u0 mod ?S"
  let ?len = "if ?f \<le> ?r then ?r - ?f else ?S - ?f + ?r"
  have sz: "?S \<noteq> 0" using wf by (simp add: well_formed_def)
  have f: "?f < ?S" and r: "?r < ?S" using sz by (simp_all add: word_mod_less_size)
  have fn: "unat ?f < ?sz" and rn: "unat ?r < ?sz"
    using f r by (simp_all add: word_less_nat_alt)
  have len: "unat ?len < ?sz \<and> unat ?r = (unat ?f + unat ?len) mod ?sz"
  proof (cases "?f \<le> ?r")
    case True
    then have "unat (?r - ?f) = unat ?r - unat ?f" by (rule unat_sub)
    moreover have "unat ?f \<le> unat ?r" using True by (simp add: word_le_nat_alt)
    ultimately show ?thesis using True rn by simp
  next
    case False
    then have lt: "unat ?r < unat ?f" by (simp add: word_le_nat_alt)
    have s: "unat (?S - ?f) = ?sz - unat ?f"
      using f by (intro unat_sub) simp
    have b: "?sz < 65536" using unsigned_less [of ?S, where ?'a = nat] by simp
    have "unat (?S - ?f) + unat ?r < 2 ^ LENGTH(16)"
      using s lt fn b by simp
    then have "unat (?S - ?f + ?r) = unat (?S - ?f) + unat ?r"
      by (simp only: unat_add_lem)
    then have l: "unat (?S - ?f + ?r) = ?sz - unat ?f + unat ?r" using s by simp
    have "unat ?f + (?sz - unat ?f + unat ?r) = unat ?r + ?sz" using fn by simp
    then have "(unat ?f + (?sz - unat ?f + unat ?r)) mod ?sz = unat ?r" using rn by simp
    then show ?thesis using False l lt fn by simp
  qed
  show ?thesis
  proof (cases "u0 > ?S \<or> ?len \<noteq> ?u")
    case True
    then have "ringbuf_updatePointer obj f0 r0 u0 = Some (obj, False)"
      using sz by (auto simp: ringbuf_updatePointer_def Let_def word_mod_neq_size)
    then show ?thesis using wf inv by (intro exI [of _ obj] exI [of _ False]) simp
  next
    case False
    then have e: "?len = ?u" and le: "\<not> u0 > ?S" by simp_all
    let ?obj' = "obj\<lparr>front := ?f, rear := ?r, used := ?u\<rparr>"
    have "ringbuf_updatePointer obj f0 r0 u0 = Some (?obj', True)"
      using sz le e by (simp add: ringbuf_updatePointer_def Let_def)
    moreover have "well_formed ?obj'"
      using wf f r by (simp add: well_formed_def)
    moreover have "ring_inv ?obj'"
      using len unfolding e by (simp add: ring_inv_def word_le_nat_alt)
    ultimately show ?thesis by (intro exI [of _ ?obj'] exI [of _ True]) simp
  qed
qed

lemma apply_op_preserves:
  assumes "well_formed obj" and "ring_inv obj" and "admissible (size_rb obj) x"
  shows "\<exists>obj'. apply_op obj x = Some obj'
           \<and> well_formed obj' \<and> ring_inv obj' \<and> size_rb obj' = size_rb obj"
proof (cases x)
  case (Write pdata n)
  then show ?thesis using assms write_preserves [of obj n pdata] by simp
next
  case (WriteForce pdata n)
  then show ?thesis using assms writeForce_preserves [of obj n pdata] by simp
next
  case (Read n)
  then show ?thesis using read_preserves [OF assms(1,2), of n] by auto
next
  case (Write_p0 pdata n force)
  then show ?thesis using assms write_p0_preserves [of obj n pdata force] by simp
next
  case (Read_p0 n strictRead)
  then show ?thesis using read_p0_preserves [OF assms(1,2), of n strictRead] by auto
next
  case (Remove n)
  then show ?thesis using assms remove_preserves [of obj n] by auto
next
  case (Modify index n pdata)
  then show ?thesis using modify_preserves [OF assms(1,2), of index n pdata] by simp
next
  case (Memset index v n)
  then show ?thesis using memset_preserves [OF assms(1,2), of index v n] by simp
next
  case (UpdatePointer f r u)
  then show ?thesis using updatePointer_preserves [OF assms(1,2), of f r u] by auto
qed

lemma run_preserves:
  "well_formed obj \<Longrightarrow> ring_inv obj \<Longrightarrow> \<forall>x \<in> set ops. admissible (size_rb obj) x \<Longrightarrow>
   \<exists>obj'. run obj ops = Some obj'
     \<and> well_formed obj' \<and> ring_inv obj' \<and> size_rb obj' = size_rb obj"
proof (induction ops arbitrary: obj)
  case Nil
  then show ?case by simp
next
  case (Cons x xs)
  from Cons.prems obtain obj1 where 1: "apply_op obj x = Some obj1" "well_formed obj1"
      "ring_inv obj1" "size_rb obj1 = size_rb obj"
    using apply_op_preserves [of obj x] by auto
  from Cons.prems 1 have "\<forall>x \<in> set xs. admissible (size_rb obj1) x" by simp
  from Cons.IH [OF 1(2,3) this] 1 show ?case by simp
qed

text \<open>
  C1 (the specification: \<open>rear = (front + used) mod size\<close> and \<open>used \<le> size\<close> after
  every operation).  A buffer of capacity \<open>65535\<close> is initialised, filled by
  \<^verbatim>\<open>ringbuf_write\<close> with \<open>65535\<close> bytes, and then receives one byte from
  \<^verbatim>\<open>ringbuf_writeForce\<close>: the invariant does not hold afterwards.
\<close>

theorem invariant_broken_at_max_capacity:
  "ringbuf_init (replicate 65535 0) 65535
     = Some \<lparr>arr = replicate 65535 0, size_rb = 65535, used = 0, front = 0, rear = 0\<rparr>
   \<and> \<not> ring_inv
        (fst (ringbuf_writeForce
           (fst (ringbuf_write
              \<lparr>arr = replicate 65535 0, size_rb = 65535, used = 0, front = 0, rear = 0\<rparr>
              (replicate 65535 7) 65535))
           [9] 1))"
proof -
  let ?o = "\<lparr>arr = replicate 65535 0, size_rb = 65535, used = 0, front = 0, rear = 0\<rparr> :: ringbuf_t"
  let ?bs = "replicate 65535 7 :: u8 list"
  have i: "ringbuf_init (replicate 65535 0) 65535 = Some ?o"
    by (simp add: ringbuf_init_def)
  have wf: "well_formed ?o" and inv: "ring_inv ?o"
    by (simp_all add: well_formed_def ring_inv_def)
  have w: "ringbuf_write ?o ?bs 65535 = (forced ?o (take (unat (65535 :: u16)) ?bs), 65535)"
    by (rule write_forced [OF wf inv]) simp_all
  let ?o1 = "forced ?o (take (unat (65535 :: u16)) ?bs)"
  have wf1: "well_formed ?o1" and inv1: "ring_inv ?o1"
    using wf inv by (rule forced_well_formed)+
  have sz1: "size_rb ?o1 = 65535" by (simp add: forced_fields(1) [OF wf])
  have "unat (used ?o1) = 65535" by (simp add: forced_fields(4) [OF wf])
  then have u1: "used ?o1 = 65535" by (simp add: word_unat_eq_iff)
  have "\<not> ring_inv (fst (ringbuf_writeForce ?o1 [9] 1))"
    using wf1 inv1 sz1 u1 by (rule writeForce_full_max_capacity_breaks_inv)
  with i w show ?thesis by simp
qed

end
